theory Spec2Isabelle
  imports Complex_Main "HOL-Library.Multiset"
begin

section \<open>Data model of kenken.py\<close>

text \<open>
  A cell is the pair \<open>(x, y)\<close> of a 1-indexed column and row. A clique (cage) is the
  triple \<open>(members, operator, target)\<close>: the members in their tuple order, the operator
  as the string the source compares it with, and the target. Tuples of a domain hold the
  integers of \<open>range(1, size + 1)\<close>; the result of folding an operator and the target it
  is compared with are numbers, where Python's \<open>==\<close> compares an int and a float by
  value, so both are kept as rationals.
\<close>

type_synonym cell = "int \<times> int"
type_synonym clique = "cell list \<times> string \<times> rat"

text \<open>
  The ways a run of the source stops without returning: \<open>exit(n)\<close> in \<open>validate\<close>, and
  the exceptions the interpreter raises on a call of \<open>None\<close> or \<open>reduce\<close> of an empty
  sequence (TypeError), an index out of range (IndexError), a missing dictionary key
  (KeyError) and a division by zero (ZeroDivisionError).
\<close>

datatype error = Exit nat | TypeError | IndexError | KeyError | ZeroDivisionError

section \<open>operation, reduce\<close>

text \<open>
  \<open>operation\<close> returns a function for the four arithmetic symbols and \<open>None\<close> for every
  other string. The division is Python's true division \<open>a / b\<close>; it raises on a zero
  divisor. Its float result is taken as the quotient itself.
\<close>

definition operation :: "string \<Rightarrow> (rat \<Rightarrow> rat \<Rightarrow> error + rat) option" where
  "operation operator =
     (if operator = ''+'' then Some (\<lambda>a b. Inr (a + b))
      else if operator = ''-'' then Some (\<lambda>a b. Inr (a - b))
      else if operator = ''*'' then Some (\<lambda>a b. Inr (a * b))
      else if operator = ''/'' then
        Some (\<lambda>a b. if b = 0 then Inl ZeroDivisionError else Inr (a / b))
      else None)"

text \<open>
  \<open>functools.reduce(function, sequence)\<close> without an initial value: an empty sequence
  raises TypeError, a sequence of one element is returned as it is and the function is
  never called, and from the second element on the function is applied to the
  accumulated value and the next element; calling \<open>None\<close> raises TypeError.
\<close>

fun reduce_from :: "(rat \<Rightarrow> rat \<Rightarrow> error + rat) option \<Rightarrow> rat \<Rightarrow> rat list \<Rightarrow> error + rat" where
  "reduce_from f acc [] = Inr acc"
| "reduce_from None acc (x # xs) = Inl TypeError"
| "reduce_from (Some g) acc (x # xs) =
     (case g acc x of Inl e \<Rightarrow> Inl e | Inr acc' \<Rightarrow> reduce_from (Some g) acc' xs)"

fun reduce :: "(rat \<Rightarrow> rat \<Rightarrow> error + rat) option \<Rightarrow> rat list \<Rightarrow> error + rat" where
  "reduce f [] = Inl TypeError"
| "reduce f (x # xs) = reduce_from f x xs"

section \<open>RowXorCol, conflicting, constraint\<close>

definition RowXorCol :: "cell \<Rightarrow> cell \<Rightarrow> bool" where
  "RowXorCol xy1 xy2 = ((fst xy1 = fst xy2) \<noteq> (snd xy1 = snd xy2))"

text \<open>
  The two nested loops of \<open>conflicting\<close>. The indices run over \<open>range(len(A))\<close> and
  \<open>range(len(B))\<close>, so \<open>A[i]\<close> and \<open>B[j]\<close> are always in range; \<open>a[i]\<close> and \<open>b[j]\<close>
  raise IndexError when the tuple is shorter than the clique.
\<close>

fun conflicting_inner :: "cell list \<Rightarrow> int list \<Rightarrow> cell list \<Rightarrow> int list \<Rightarrow> nat \<Rightarrow> nat list \<Rightarrow>
    error + bool" where
  "conflicting_inner A a B b i [] = Inr False"
| "conflicting_inner A a B b i (j # js) =
     (if i < length a \<and> j < length b then
        (if RowXorCol (A ! i) (B ! j) \<and> a ! i = b ! j then Inr True
         else conflicting_inner A a B b i js)
      else Inl IndexError)"

fun conflicting_outer :: "cell list \<Rightarrow> int list \<Rightarrow> cell list \<Rightarrow> int list \<Rightarrow> nat list \<Rightarrow>
    error + bool" where
  "conflicting_outer A a B b [] = Inr False"
| "conflicting_outer A a B b (i # is) =
     (case conflicting_inner A a B b i [0..<length B] of
        Inl e \<Rightarrow> Inl e
      | Inr found \<Rightarrow> if found then Inr True else conflicting_outer A a B b is)"

definition conflicting :: "cell list \<Rightarrow> int list \<Rightarrow> cell list \<Rightarrow> int list \<Rightarrow> error + bool" where
  "conflicting A a B b = conflicting_outer A a B b [0..<length A]"

text \<open>
  \<open>Kenken.constraint\<close>: the counter \<open>self.checks\<close> is the state, passed in and returned
  incremented. \<open>A == B or not conflicting(...)\<close> evaluates \<open>conflicting\<close> only when the two
  variables differ.
\<close>

definition constraint :: "nat \<Rightarrow> cell list \<Rightarrow> int list \<Rightarrow> cell list \<Rightarrow> int list \<Rightarrow>
    error + (bool \<times> nat)" where
  "constraint checks A a B b =
     (if A = B then Inr (True, checks + 1)
      else (case conflicting A a B b of
              Inl e \<Rightarrow> Inl e
            | Inr c \<Rightarrow> Inr (\<not> c, checks + 1)))"

section \<open>validate\<close>

text \<open>
  \<open>operator not in "+-*/."\<close> is Python's test on two strings: the left one occurs in the
  right one as a contiguous substring.
\<close>

fun starts_with :: "string \<Rightarrow> string \<Rightarrow> bool" where
  "starts_with [] s = True"
| "starts_with (c # p) [] = False"
| "starts_with (c # p) (d # s) = (c = d \<and> starts_with p s)"

fun str_in :: "string \<Rightarrow> string \<Rightarrow> bool" where
  "str_in p [] = (p = [])"
| "str_in p (d # s) = (starts_with p (d # s) \<or> str_in p s)"

definition outOfBounds :: "int \<Rightarrow> cell \<Rightarrow> bool" where
  "outOfBounds sz xy = (fst xy < 1 \<or> fst xy > sz \<or> snd xy < 1 \<or> snd xy > sz)"

text \<open>
  The loop of \<open>validate\<close> over the cliques, with the set \<open>mentioned\<close> as its state. Each
  clique is replaced by the one whose members are \<open>tuple(set(members))\<close>; the order in
  which a Python set is iterated is fixed by the hashes of its elements and not by the
  source, so it is the parameter \<open>tuple_set\<close>. The loop returns the rewritten cliques and
  the cells mentioned, or the exit code.
\<close>

fun validate_loop :: "(cell list \<Rightarrow> cell list) \<Rightarrow> int \<Rightarrow> cell set \<Rightarrow> clique list \<Rightarrow>
    error + (clique list \<times> cell set)" where
  "validate_loop tuple_set sz mentioned [] = Inr ([], mentioned)"
| "validate_loop tuple_set sz mentioned ((members0, operator, target) # rest) =
     (let members = tuple_set members0 in
      if \<not> str_in operator ''+-*/.'' then Inl (Exit 1)
      else if filter (outOfBounds sz) members \<noteq> [] then Inl (Exit 2)
      else if mentioned \<inter> set members \<noteq> {} then Inl (Exit 3)
      else (case validate_loop tuple_set sz (mentioned \<union> set members) rest of
              Inl e \<Rightarrow> Inl e
            | Inr (rest', mentioned') \<Rightarrow> Inr ((members, operator, target) # rest', mentioned')))"

definition validate :: "(cell list \<Rightarrow> cell list) \<Rightarrow> int \<Rightarrow> clique list \<Rightarrow> error + clique list" where
  "validate tuple_set sz cliques =
     (case validate_loop tuple_set sz {} cliques of
        Inl e \<Rightarrow> Inl e
      | Inr (cliques', mentioned) \<Rightarrow>
          if set (concat (map (\<lambda>y. map (\<lambda>x. (x, y)) [1..sz]) [1..sz])) - mentioned \<noteq> {}
          then Inl (Exit 4)
          else Inr cliques')"

text \<open>What the source relies on of the iteration order of a set: each element once.\<close>

definition set_order :: "(cell list \<Rightarrow> cell list) \<Rightarrow> bool" where
  "set_order tuple_set = (\<forall>xs. distinct (tuple_set xs) \<and> set (tuple_set xs) = set xs)"

section \<open>satisfies, gdomains\<close>

text \<open>
  \<open>itertools.permutations(values)\<close>: every ordering of the positions of \<open>values\<close>, in
  the lexicographic order of the positions (equal values at different positions give the
  same tuple more than once).
\<close>

fun permutations :: "'a list \<Rightarrow> 'a list list" where
  "permutations [] = [[]]"
| "permutations (v # vs) =
     concat (map (\<lambda>i. map ((#) ((v # vs) ! i))
                          (permutations (take i (v # vs) @ drop (Suc i) (v # vs))))
                 [0..<length (v # vs)])"

fun satisfies_loop :: "(rat \<Rightarrow> rat \<Rightarrow> error + rat) option \<Rightarrow> rat \<Rightarrow> int list list \<Rightarrow>
    error + bool" where
  "satisfies_loop f target [] = Inr False"
| "satisfies_loop f target (p # ps) =
     (case reduce f (map of_int p) of
        Inl e \<Rightarrow> Inl e
      | Inr r \<Rightarrow> if r = target then Inr True else satisfies_loop f target ps)"

definition satisfies :: "int list \<Rightarrow> (rat \<Rightarrow> rat \<Rightarrow> error + rat) option \<Rightarrow> rat \<Rightarrow> error + bool" where
  "satisfies values f target = satisfies_loop f target (permutations values)"

text \<open>
  \<open>list(product(range(1, size + 1), repeat=k))\<close>: all tuples of length \<open>k\<close> over
  \<open>1..size\<close>, the last position varying fastest.
\<close>

definition product_range :: "int \<Rightarrow> nat \<Rightarrow> int list list" where
  "product_range sz k = product_lists (replicate k [1..sz])"

text \<open>
  The lambda \<open>qualifies\<close> of \<open>gdomains\<close>: \<open>not conflicting(...) and satisfies(...)\<close> calls
  \<open>satisfies\<close> only for a tuple that does not conflict with itself.
\<close>

definition qualifies :: "cell list \<Rightarrow> string \<Rightarrow> rat \<Rightarrow> int list \<Rightarrow> error + bool" where
  "qualifies members operator target values =
     (case conflicting members values members values of
        Inl e \<Rightarrow> Inl e
      | Inr c \<Rightarrow> if c then Inr False else satisfies values (operation operator) target)"

text \<open>\<open>list(filter(p, xs))\<close> for a predicate that can raise.\<close>

fun filter_raising :: "('a \<Rightarrow> error + bool) \<Rightarrow> 'a list \<Rightarrow> error + 'a list" where
  "filter_raising p [] = Inr []"
| "filter_raising p (x # xs) =
     (case p x of
        Inl e \<Rightarrow> Inl e
      | Inr keep \<Rightarrow>
          (case filter_raising p xs of
             Inl e \<Rightarrow> Inl e
           | Inr ys \<Rightarrow> Inr (if keep then x # ys else ys)))"

text \<open>
  The loop of \<open>gdomains\<close>; the dictionary \<open>domains\<close>, keyed by the member tuples, is the
  state. A later clique with the same members overwrites the entry of an earlier one.
\<close>

fun gdomains_loop :: "int \<Rightarrow> (cell list \<rightharpoonup> int list list) \<Rightarrow> clique list \<Rightarrow>
    error + (cell list \<rightharpoonup> int list list)" where
  "gdomains_loop sz domains [] = Inr domains"
| "gdomains_loop sz domains ((members, operator, target) # rest) =
     (case filter_raising (qualifies members operator target)
             (product_range sz (length members)) of
        Inl e \<Rightarrow> Inl e
      | Inr d \<Rightarrow> gdomains_loop sz (domains(members \<mapsto> d)) rest)"

definition gdomains :: "int \<Rightarrow> clique list \<Rightarrow> error + (cell list \<rightharpoonup> int list list)" where
  "gdomains sz cliques = gdomains_loop sz Map.empty cliques"

section \<open>gneighbors\<close>

text \<open>
  The dictionary \<open>neighbors\<close> maps a member tuple to the list of its neighbours. The body
  of the two nested loops: \<open>A != B\<close> is tested first, then \<open>neighbors[A]\<close> is read, then
  \<open>conflicting\<close> is called on two tuples of \<open>-1\<close>, and both lists are appended to.
\<close>

definition gneighbors_step :: "(cell list \<rightharpoonup> cell list list) \<Rightarrow> cell list \<Rightarrow> cell list \<Rightarrow>
    error + (cell list \<rightharpoonup> cell list list)" where
  "gneighbors_step neighbors A B =
     (if A = B then Inr neighbors
      else (case neighbors A of
              None \<Rightarrow> Inl KeyError
            | Some nA \<Rightarrow>
                if B \<in> set nA then Inr neighbors
                else (case conflicting A (replicate (length A) (- 1)) B (replicate (length B) (- 1)) of
                        Inl e \<Rightarrow> Inl e
                      | Inr c \<Rightarrow>
                          if c then
                            (let neighbors1 = neighbors(A \<mapsto> nA @ [B]) in
                             case neighbors1 B of
                               None \<Rightarrow> Inl KeyError
                             | Some nB \<Rightarrow> Inr (neighbors1(B \<mapsto> nB @ [A])))
                          else Inr neighbors)))"

fun gneighbors_inner :: "(cell list \<rightharpoonup> cell list list) \<Rightarrow> cell list \<Rightarrow> cell list list \<Rightarrow>
    error + (cell list \<rightharpoonup> cell list list)" where
  "gneighbors_inner neighbors A [] = Inr neighbors"
| "gneighbors_inner neighbors A (B # Bs) =
     (case gneighbors_step neighbors A B of
        Inl e \<Rightarrow> Inl e
      | Inr neighbors' \<Rightarrow> gneighbors_inner neighbors' A Bs)"

fun gneighbors_outer :: "(cell list \<rightharpoonup> cell list list) \<Rightarrow> cell list list \<Rightarrow> cell list list \<Rightarrow>
    error + (cell list \<rightharpoonup> cell list list)" where
  "gneighbors_outer neighbors [] Bs = Inr neighbors"
| "gneighbors_outer neighbors (A # As) Bs =
     (case gneighbors_inner neighbors A Bs of
        Inl e \<Rightarrow> Inl e
      | Inr neighbors' \<Rightarrow> gneighbors_outer neighbors' As Bs)"

definition gneighbors :: "clique list \<Rightarrow> error + (cell list \<rightharpoonup> cell list list)" where
  "gneighbors cliques =
     (let keys = map fst cliques;
          neighbors = fold (\<lambda>members nb. nb(members \<mapsto> [])) keys Map.empty
      in gneighbors_outer neighbors keys keys)"

section \<open>generate\<close>

definition adjacent :: "cell \<Rightarrow> cell \<Rightarrow> bool" where
  "adjacent xy1 xy2 =
     (let dx = fst xy1 - fst xy2; dy = snd xy1 - snd xy2
      in (dx = 0 \<and> \<bar>dy\<bar> = 1) \<or> (dy = 0 \<and> \<bar>dx\<bar> = 1))"

text \<open>
  The random source. \<open>generate\<close> draws from Python's module \<open>random\<close>; the model
  reads the draws from a tape \<open>r\<close> of natural numbers, one cell per draw, with the
  position \<open>k\<close> of the next unread cell as the state that every drawing function takes
  and returns. A draw \<open>v\<close> stands for \<open>randint(1, 4) = 1 + v mod 4\<close>, for
  \<open>choice(seq) = seq[v mod len(seq)]\<close>, for \<open>random() > 0.5\<close> when \<open>v\<close> is odd, and in
  \<open>shuffle\<close> for the index \<open>v mod (i + 1)\<close> that the library's loop
  \<open>for i in reversed(range(1, len(x))): j = randbelow(i + 1); x[i], x[j] = x[j], x[i]\<close>
  exchanges position \<open>i\<close> with. Every outcome of every call is the image of some draw, so a
  statement for all tapes is one for every sequence of random choices.
\<close>

type_synonym tape = "nat \<Rightarrow> nat"

fun shuffle_loop :: "tape \<Rightarrow> nat list \<Rightarrow> 'a list \<Rightarrow> nat \<Rightarrow> 'a list \<times> nat" where
  "shuffle_loop r [] x k = (x, k)"
| "shuffle_loop r (i # is) x k =
     (let j = r k mod (i + 1)
      in shuffle_loop r is (x[i := x ! j, j := x ! i]) (Suc k))"

definition shuffle :: "tape \<Rightarrow> 'a list \<Rightarrow> nat \<Rightarrow> 'a list \<times> nat" where
  "shuffle r x k = shuffle_loop r (rev [1..<length x]) x k"

fun shuffle_times :: "tape \<Rightarrow> nat \<Rightarrow> 'a list \<Rightarrow> nat \<Rightarrow> 'a list \<times> nat" where
  "shuffle_times r 0 x k = (x, k)"
| "shuffle_times r (Suc n) x k =
     (case shuffle r x k of (x', k') \<Rightarrow> shuffle_times r n x' k')"

text \<open>
  \<open>for r in range(size): board[r][c1], board[r][c2] = board[r][c2], board[r][c1]\<close>;
  the board has \<open>size\<close> rows of \<open>size\<close> entries (lemma \<open>latin_board_rows\<close> below), so
  every index read here is in range.
\<close>

definition swap_columns :: "nat \<Rightarrow> nat \<Rightarrow> nat \<Rightarrow> int list list \<Rightarrow> int list list" where
  "swap_columns n c1 c2 board =
     fold (\<lambda>row b. b[row := (b ! row)[c1 := b ! row ! c2, c2 := b ! row ! c1]]) [0..<n] board"

fun swap_loop :: "tape \<Rightarrow> nat \<Rightarrow> (nat \<times> nat) list \<Rightarrow> int list list \<Rightarrow> nat \<Rightarrow> int list list \<times> nat" where
  "swap_loop r n [] board k = (board, k)"
| "swap_loop r n ((c1, c2) # cs) board k =
     swap_loop r n cs (if odd (r k) then swap_columns n c1 c2 board else board) (Suc k)"

text \<open>
  Lines 88 to 97 of \<open>generate\<close>: the cyclic square, \<open>size\<close> shuffles of its rows, and a
  coin for every ordered pair of columns. The result is the list of rows and the tape
  position.
\<close>

definition board_rows :: "tape \<Rightarrow> int \<Rightarrow> int list list \<times> nat" where
  "board_rows r sz =
     (let n = nat sz;
          board = map (\<lambda>j. map (\<lambda>i. (int i + int j) mod sz + 1) [0..<n]) [0..<n];
          (board1, k1) = shuffle_times r n board 0
      in swap_loop r n (List.product [0..<n] [0..<n]) board1 k1)"

text \<open>
  The dictionary \<open>board\<close> of line 99 as the list of its items in insertion order; its
  keys are pairwise different, and \<open>map_of\<close> of the list is the dictionary.
\<close>

definition board_items :: "int \<Rightarrow> int list list \<Rightarrow> (cell \<times> int) list" where
  "board_items sz board =
     concat (map (\<lambda>i. map (\<lambda>j. ((int j + 1, int i + 1), board ! i ! j)) [0..<nat sz]) [0..<nat sz])"

text \<open>
  The inner loop \<open>for _ in range(csize - 1)\<close>: at most \<open>n\<close> more cells, each chosen
  among the uncaged cells adjacent to the last one added; no draw is made when there is
  none. (A cell is a non-empty tuple, so \<open>if not cell\<close> holds only for \<open>None\<close>.)
\<close>

fun grow :: "tape \<Rightarrow> nat \<Rightarrow> cell \<Rightarrow> cell list \<Rightarrow> cell list \<Rightarrow> nat \<Rightarrow> cell list \<times> cell list \<times> nat" where
  "grow r 0 cell uncaged clique k = (uncaged, clique, k)"
| "grow r (Suc n) cell uncaged clique k =
     (let adjs = filter (adjacent cell) uncaged
      in if adjs = [] then (uncaged, clique, k)
         else (let cell' = adjs ! (r k mod length adjs)
               in grow r n cell' (remove1 cell' uncaged) (clique @ [cell']) (Suc k)))"

text \<open>\<open>int(x)\<close> on a number: truncation towards zero.\<close>

definition py_int :: "rat \<Rightarrow> int" where
  "py_int x = (if 0 \<le> x then \<lfloor>x\<rfloor> else \<lceil>x\<rceil>)"

text \<open>
  Lines 134 to 141: the operator of a clique of two or more cells. In
  \<open>board[fst] / board[snd] > 0 and not board[fst] % board[snd]\<close> the division is
  evaluated first and raises on a zero divisor.
\<close>

definition pick_operator :: "tape \<Rightarrow> (cell \<rightharpoonup> int) \<Rightarrow> cell list \<Rightarrow> nat \<Rightarrow> error + (string \<times> nat)" where
  "pick_operator r board clique k =
     (if length clique = 2 then
        (case (board (clique ! 0), board (clique ! 1)) of
           (Some vf, Some vs) \<Rightarrow>
             if vs = 0 then Inl ZeroDivisionError
             else if rat_of_int vf / rat_of_int vs > 0 \<and> vf mod vs = 0 then Inr (''/'', k)
             else Inr (''-'', k)
         | _ \<Rightarrow> Inl KeyError)
      else Inr ([''+*'' ! (r k mod 2)], Suc k))"

text \<open>
  Lines 129 to 145: the cage made of the grown list of cells. A clique of one cell gets
  the operator \<open>.\<close> and the value of its cell; any other gets its operator from
  \<open>pick_operator\<close> and the target \<open>int(reduce(operation(operator), values))\<close>.
\<close>

definition label :: "tape \<Rightarrow> (cell \<rightharpoonup> int) \<Rightarrow> cell list \<Rightarrow> nat \<Rightarrow> error + (clique \<times> nat)" where
  "label r board clique k =
     (if length clique = 1 then
        (case board (clique ! 0) of
           None \<Rightarrow> Inl KeyError
         | Some v \<Rightarrow> Inr (([clique ! 0], ''.'', rat_of_int v), k))
      else
        (case pick_operator r board clique k of
           Inl e \<Rightarrow> Inl e
         | Inr (operator, k') \<Rightarrow>
             (case those (map board clique) of
                None \<Rightarrow> Inl KeyError
              | Some vals \<Rightarrow>
                  (case reduce (operation operator) (map rat_of_int vals) of
                     Inl e \<Rightarrow> Inl e
                   | Inr target \<Rightarrow> Inr ((clique, operator, rat_of_int (py_int target)), k')))))"

lemma grow_length: "length (fst (grow r n cell uncaged clique k)) \<le> length uncaged"
proof (induction n arbitrary: cell uncaged clique k)
  case 0
  then show ?case by simp
next
  case (Suc n)
  show ?case
  proof (cases "filter (adjacent cell) uncaged = []")
    case True
    then show ?thesis by simp
  next
    case False
    let ?adjs = "filter (adjacent cell) uncaged"
    let ?c = "?adjs ! (r k mod length ?adjs)"
    have "length (fst (grow r n ?c (remove1 ?c uncaged) (clique @ [?c]) (Suc k)))
        \<le> length (remove1 ?c uncaged)" by (rule Suc.IH)
    also have "\<dots> \<le> length uncaged" by (simp add: length_remove1)
    finally show ?thesis using False by (simp add: Let_def)
  qed
qed

text \<open>
  The loop \<open>while uncaged\<close>. Each round removes at least the first uncaged cell, which
  is the measure of termination.
\<close>

function carve :: "tape \<Rightarrow> (cell \<rightharpoonup> int) \<Rightarrow> cell list \<Rightarrow> clique list \<Rightarrow> nat \<Rightarrow>
    error + (clique list \<times> nat)" where
  "carve r board [] cliques k = Inr (cliques, k)"
| "carve r board (cell # rest) cliques k =
     (let csize = 1 + r k mod 4
      in case grow r (csize - 1) cell (remove1 cell (cell # rest)) [cell] (Suc k) of
           (uncaged', clique, k') \<Rightarrow>
             (case label r board clique k' of
                Inl e \<Rightarrow> Inl e
              | Inr (cage, k'') \<Rightarrow> carve r board uncaged' (cliques @ [cage]) k''))"
  by pat_completeness auto
termination
proof (relation "measure (\<lambda>(r, board, uncaged, cliques, k). length uncaged)", goal_cases)
  case 1
  then show ?case by simp
next
  case (2 r board cell rest cliques k csize uncaged' y clique k' z cage k'')
  have "length (fst (grow r (csize - 1) cell (remove1 cell (cell # rest)) [cell] (Suc k)))
      \<le> length (remove1 cell (cell # rest))" by (rule grow_length)
  moreover have "fst (grow r (csize - 1) cell (remove1 cell (cell # rest)) [cell] (Suc k)) = uncaged'"
    using 2(2) by (metis fst_conv)
  ultimately show ?case by simp
qed

text \<open>
  \<open>generate\<close>: \<open>uncaged\<close> is \<open>sorted(board.keys(), key=lambda var: var[1])\<close>, a stable
  sort as \<open>sort_key\<close> is.
\<close>

definition generate :: "tape \<Rightarrow> int \<Rightarrow> error + (int \<times> clique list)" where
  "generate r sz =
     (let (rows, k) = board_rows r sz;
          items = board_items sz rows;
          uncaged = sort_key snd (map fst items)
      in case carve r (map_of items) uncaged [] k of
           Inl e \<Rightarrow> Inl e
         | Inr (cliques, k') \<Rightarrow> Inr (sz, cliques))"

section \<open>Properties\<close>

subsection \<open>conflicting\<close>

lemma conflicting_inner_eq:
  assumes "i < length a" and "\<forall>j \<in> set js. j < length b"
  shows "conflicting_inner A a B b i js =
         Inr (\<exists>j \<in> set js. RowXorCol (A ! i) (B ! j) \<and> a ! i = b ! j)"
  using assms by (induction js) auto

lemma conflicting_outer_eq:
  assumes "\<forall>i \<in> set is. i < length a" and "length b = length B"
  shows "conflicting_outer A a B b is =
         Inr (\<exists>i \<in> set is. \<exists>j < length B. RowXorCol (A ! i) (B ! j) \<and> a ! i = b ! j)"
  using assms
proof (induction "is")
  case Nil
  then show ?case by simp
next
  case (Cons i "is")
  have inner: "conflicting_inner A a B b i [0..<length B] =
      Inr (\<exists>j < length B. RowXorCol (A ! i) (B ! j) \<and> a ! i = b ! j)"
    using Cons.prems by (subst conflicting_inner_eq) auto
  show ?case
    using Cons by (auto simp: inner)
qed

lemma conflicting_eq:
  assumes "length a = length A" and "length b = length B"
  shows "conflicting A a B b =
         Inr (\<exists>i < length A. \<exists>j < length B. RowXorCol (A ! i) (B ! j) \<and> a ! i = b ! j)"
  unfolding conflicting_def using assms by (subst conflicting_outer_eq) auto

text \<open>
  C2. For cliques \<open>A\<close>, \<open>B\<close> and tuples \<open>a\<close>, \<open>b\<close> of matching lengths, \<open>conflicting\<close>
  returns, without raising, the truth of: there are positions \<open>i\<close> of \<open>A\<close> and \<open>j\<close> of \<open>B\<close>
  whose cells agree in exactly one of column and row (so not cells that agree in both, nor
  cells that agree in neither) and carry equal values.
\<close>

theorem conflicting_iff:
  assumes "length a = length A" and "length b = length B"
  shows "conflicting A a B b =
         Inr (\<exists>i < length A. \<exists>j < length B.
                ((fst (A ! i) = fst (B ! j)) \<noteq> (snd (A ! i) = snd (B ! j))) \<and> a ! i = b ! j)"
  using conflicting_eq [OF assms] by (simp add: RowXorCol_def)

theorem conflicting_iff_witness:
  "length [3, 4 :: int] = length [(1, 1), (2, 1) :: cell] \<and>
   length [4 :: int] = length [(2, 2) :: cell] \<and>
   conflicting [(1, 1), (2, 1)] [3, 4] [(2, 2)] [4] = Inr True \<and>
   (\<exists>i < length [(1, 1), (2, 1) :: cell]. \<exists>j < length [(2, 2) :: cell].
      ((fst ([(1, 1), (2, 1) :: cell] ! i) = fst ([(2, 2) :: cell] ! j)) \<noteq>
       (snd ([(1, 1), (2, 1) :: cell] ! i) = snd ([(2, 2) :: cell] ! j))) \<and>
      [3, 4 :: int] ! i = [4 :: int] ! j)"
proof -
  have c: "conflicting [(1, 1), (2, 1)] [3, 4] [(2, 2)] [4] = Inr True"
    by (simp add: conflicting_def RowXorCol_def)
  show ?thesis
    using conflicting_iff [of "[3, 4]" "[(1, 1), (2, 1)]" "[4]" "[(2, 2)]"] c by simp
qed

subsection \<open>constraint\<close>

text \<open>
  C10. When both variable arguments are the same clique, \<open>constraint\<close> returns True for
  any two tuples, of any lengths and contents, and counts one check; \<open>conflicting\<close> is not
  evaluated, so no tuple can make the call raise.
\<close>

theorem constraint_same_variable:
  "constraint checks A a A b = Inr (True, checks + 1)"
  by (simp add: constraint_def)

lemma set_order_remdups: "set_order remdups"
  by (simp add: set_order_def)

lemma set_order_single:
  assumes "set_order ts" shows "ts [c] = [c]"
proof -
  have d: "distinct (ts [c])" and s: "set (ts [c]) = {c}"
    using assms by (simp_all add: set_order_def)
  show ?thesis
  proof (cases "ts [c]")
    case Nil
    with s show ?thesis by simp
  next
    case (Cons x xs)
    with s have "x = c" by auto
    moreover have "xs = []"
    proof (cases xs)
      case Nil then show ?thesis .
    next
      case (Cons y ys)
      with \<open>ts [c] = x # xs\<close> s d show ?thesis by auto
    qed
    ultimately show ?thesis using Cons by simp
  qed
qed

lemma validate_loop_props:
  assumes "set_order ts" and "validate_loop ts sz M cl = Inr (cl', M')"
  shows "cl' = map (\<lambda>(m, operator, t). (ts m, operator, t)) cl
       \<and> M' = M \<union> \<Union> (set ` fst ` set cl')
       \<and> (\<forall>c \<in> set cl'. str_in (fst (snd c)) ''+-*/.'' \<and> distinct (fst c)
              \<and> (\<forall>xy \<in> set (fst c). \<not> outOfBounds sz xy) \<and> M \<inter> set (fst c) = {})
       \<and> (\<forall>i < length cl'. \<forall>j < length cl'. i \<noteq> j \<longrightarrow> set (fst (cl' ! i)) \<inter> set (fst (cl' ! j)) = {})"
  using assms(2)
proof (induction cl arbitrary: M cl' M')
  case Nil
  then show ?case by simp
next
  case (Cons c cl)
  obtain m0 operator t where c: "c = (m0, operator, t)" by (cases c)
  let ?m = "ts m0"
  from Cons.prems c obtain rest' where
    ok: "str_in operator ''+-*/.''" "filter (outOfBounds sz) ?m = []" "M \<inter> set ?m = {}"
    and rec: "validate_loop ts sz (M \<union> set ?m) cl = Inr (rest', M')"
    and cl': "cl' = (?m, operator, t) # rest'"
    by (auto simp: Let_def split: if_splits sum.splits)
  note IH = Cons.IH [OF rec]
  have dm: "distinct ?m" using assms(1) by (simp add: set_order_def)
  have inb: "\<forall>xy \<in> set ?m. \<not> outOfBounds sz xy"
    using ok(2) by (simp add: filter_empty_conv)
  have disj_rest: "\<forall>c \<in> set rest'. set ?m \<inter> set (fst c) = {}"
    using IH by blast
  have IH4: "\<forall>i < length rest'. \<forall>j < length rest'. i \<noteq> j \<longrightarrow>
      set (fst (rest' ! i)) \<inter> set (fst (rest' ! j)) = {}"
    using IH by blast
  have IH1: "rest' = map (\<lambda>(m, operator, t). (ts m, operator, t)) cl"
    and IH2: "M' = (M \<union> set ?m) \<union> \<Union> (set ` fst ` set rest')"
    and IH3: "\<forall>c \<in> set rest'. str_in (fst (snd c)) ''+-*/.'' \<and> distinct (fst c)
              \<and> (\<forall>xy \<in> set (fst c). \<not> outOfBounds sz xy) \<and> M \<inter> set (fst c) = {}"
    using IH by blast+
  have pair: "\<forall>i < length cl'. \<forall>j < length cl'. i \<noteq> j \<longrightarrow>
      set (fst (cl' ! i)) \<inter> set (fst (cl' ! j)) = {}"
  proof (intro allI impI)
    fix i j assume ij: "i < length cl'" "j < length cl'" "i \<noteq> j"
    show "set (fst (cl' ! i)) \<inter> set (fst (cl' ! j)) = {}"
    proof (cases i)
      case 0
      then obtain j' where j': "j = Suc j'" using ij by (cases j) auto
      then have "rest' ! j' \<in> set rest'" using ij cl' by simp
      then show ?thesis using disj_rest 0 j' cl' by auto
    next
      case (Suc i')
      show ?thesis
      proof (cases j)
        case 0
        have "rest' ! i' \<in> set rest'" using ij cl' Suc by simp
        then show ?thesis using disj_rest 0 Suc cl' by auto
      next
        case (Suc j')
        have "i' < length rest'" "j' < length rest'" "i' \<noteq> j'"
          using ij cl' Suc \<open>i = Suc i'\<close> by simp_all
        then have "set (fst (rest' ! i')) \<inter> set (fst (rest' ! j')) = {}"
          using IH4 by blast
        then show ?thesis unfolding cl' Suc \<open>i = Suc i'\<close> by simp
      qed
    qed
  qed
  have c1: "cl' = map (\<lambda>(m, operator, t). (ts m, operator, t)) (c # cl)"
    unfolding cl' c using IH1 by simp
  have c2: "M' = M \<union> \<Union> (set ` fst ` set cl')"
    unfolding cl' using IH2 by auto
  have c3: "\<forall>c \<in> set cl'. str_in (fst (snd c)) ''+-*/.'' \<and> distinct (fst c)
              \<and> (\<forall>xy \<in> set (fst c). \<not> outOfBounds sz xy) \<and> M \<inter> set (fst c) = {}"
    unfolding cl' using IH3 ok(1,3) dm inb by (simp del: str_in.simps)
  show ?case
    using c1 c2 c3 pair by blast
qed


lemma validate_props:
  assumes "set_order ts" and "validate ts sz cl = Inr cl'"
  shows "cl' = map (\<lambda>(m, operator, t). (ts m, operator, t)) cl"
    and "\<forall>c \<in> set cl'. str_in (fst (snd c)) ''+-*/.'' \<and> distinct (fst c)
              \<and> (\<forall>xy \<in> set (fst c). \<not> outOfBounds sz xy)"
    and "\<forall>i < length cl'. \<forall>j < length cl'. i \<noteq> j \<longrightarrow> set (fst (cl' ! i)) \<inter> set (fst (cl' ! j)) = {}"
    and "{1..sz} \<times> {1..sz} \<subseteq> \<Union> (set ` fst ` set cl')"
proof -
  from assms(2) obtain M' where
    loop: "validate_loop ts sz {} cl = Inr (cl', M')"
    and cover: "set (concat (map (\<lambda>y. map (\<lambda>x. (x, y)) [1..sz]) [1..sz])) - M' = {}"
    by (auto simp: validate_def split: sum.splits if_splits)
  note P = validate_loop_props [OF assms(1) loop]
  show "cl' = map (\<lambda>(m, operator, t). (ts m, operator, t)) cl" using P by blast
  show "\<forall>c \<in> set cl'. str_in (fst (snd c)) ''+-*/.'' \<and> distinct (fst c)
              \<and> (\<forall>xy \<in> set (fst c). \<not> outOfBounds sz xy)" using P by blast
  show "\<forall>i < length cl'. \<forall>j < length cl'. i \<noteq> j \<longrightarrow> set (fst (cl' ! i)) \<inter> set (fst (cl' ! j)) = {}"
    using P by blast
  have M': "M' = \<Union> (set ` fst ` set cl')" using P by blast
  have "{1..sz} \<times> {1..sz} \<subseteq> set (concat (map (\<lambda>y. map (\<lambda>x. (x, y)) [1..sz]) [1..sz]))"
    by auto
  then show "{1..sz} \<times> {1..sz} \<subseteq> \<Union> (set ` fst ` set cl')"
    using cover M' by blast
qed

lemma filter_raising_Inr:
  "filter_raising p xs = Inr ys \<Longrightarrow>
     ys = filter (\<lambda>x. p x = Inr True) xs \<and> (\<forall>x \<in> set xs. \<exists>b. p x = Inr b)"
  by (induction xs arbitrary: ys) (auto split: sum.splits if_splits)

lemma filter_raising_total:
  "\<forall>x \<in> set xs. \<exists>b. p x = Inr b \<Longrightarrow>
     filter_raising p xs = Inr (filter (\<lambda>x. p x = Inr True) xs)"
  by (induction xs) (auto split: sum.splits)

lemma satisfies_loop_True:
  "satisfies_loop f t ps = Inr True \<Longrightarrow> \<exists>p \<in> set ps. reduce f (map of_int p) = Inr t"
  by (induction ps) (auto split: sum.splits if_splits)

lemma satisfies_loop_total:
  "\<forall>p \<in> set ps. \<exists>r. reduce f (map of_int p) = Inr r \<Longrightarrow>
     satisfies_loop f t ps = Inr (\<exists>p \<in> set ps. reduce f (map of_int p) = Inr t)"
  by (induction ps) (auto split: sum.splits)

lemma mset_remove_nth:
  "i < length xs \<Longrightarrow> add_mset (xs ! i) (mset (take i xs @ drop (Suc i) xs)) = mset xs"
proof -
  assume "i < length xs"
  then have "xs = take i xs @ xs ! i # drop (Suc i) xs" by (rule id_take_nth_drop)
  then have "mset xs = mset (take i xs @ xs ! i # drop (Suc i) xs)" by simp
  then show ?thesis by simp
qed

lemma set_permutations: "set (permutations xs) = {p. mset p = mset xs}"
proof (induction xs rule: permutations.induct)
  case 1
  then show ?case by simp
next
  case (2 v vs)
  let ?xs = "v # vs"
  let ?rm = "\<lambda>i. take i ?xs @ drop (Suc i) ?xs"
  have IH: "set (permutations (?rm i)) = {p. mset p = mset (?rm i)}" if "i < length ?xs" for i
  proof -
    from that have "i \<in> set [0..<length ?xs]" by auto
    from 2 [OF this] show ?thesis .
  qed
  have eq: "set (permutations ?xs) = (\<Union>i \<in> {0..<length ?xs}. (#) (?xs ! i) ` set (permutations (?rm i)))"
    by (simp del: upt_Suc take_Suc_Cons drop_Suc_Cons nth_Cons_Suc add: image_image)
  show ?case
  proof (intro set_eqI iffI)
    fix p assume "p \<in> set (permutations ?xs)"
    then obtain i q where i: "i < length ?xs" and q: "q \<in> set (permutations (?rm i))"
      and p: "p = ?xs ! i # q"
      unfolding eq by auto
    have "mset q = mset (?rm i)" using IH [OF i] q by blast
    then have "mset p = add_mset (?xs ! i) (mset (?rm i))" using p by simp
    then show "p \<in> {p. mset p = mset ?xs}" using mset_remove_nth [OF i] by simp
  next
    fix p assume "p \<in> {p. mset p = mset ?xs}"
    then have mp: "mset p = mset ?xs" by simp
    then obtain y q where p: "p = y # q" by (cases p) auto
    have "y \<in># mset ?xs" using mp p by (metis list.set_intros(1) set_mset_mset)
    then have "y \<in> set ?xs" by simp
    then obtain i where i: "i < length ?xs" and y: "?xs ! i = y"
      by (meson in_set_conv_nth)
    have "add_mset y (mset q) = add_mset y (mset (?rm i))"
      using mp p mset_remove_nth [OF i] y by simp
    then have "mset q = mset (?rm i)" by simp
    then have "q \<in> set (permutations (?rm i))" using IH [OF i] by blast
    then show "p \<in> set (permutations ?xs)"
      unfolding eq using i y p by auto
  qed
qed

lemma set_product_range:
  "set (product_range sz k) = {t. length t = k \<and> (\<forall>v \<in> set t. 1 \<le> v \<and> v \<le> sz)}"
proof -
  have "\<And>t. list_all2 (\<lambda>x ys. x \<in> set ys) t (replicate k [1..sz]) \<longleftrightarrow>
          length t = k \<and> (\<forall>v \<in> set t. 1 \<le> v \<and> v \<le> sz)"
    by (auto simp: list_all2_conv_all_nth all_set_conv_all_nth)
  then show ?thesis
    by (simp add: product_range_def product_lists_set)
qed

lemma gdomains_loop_other:
  "gdomains_loop sz D cl = Inr d \<Longrightarrow> m \<notin> fst ` set cl \<Longrightarrow> d m = D m"
  by (induction cl arbitrary: D) (auto split: sum.splits)

lemma gdomains_loop_last:
  "gdomains_loop sz D (pre @ (m, operator, t) # post) = Inr d \<Longrightarrow> m \<notin> fst ` set post \<Longrightarrow>
     \<exists>dom. d m = Some dom \<and>
       filter_raising (qualifies m operator t) (product_range sz (length m)) = Inr dom"
proof (induction pre arbitrary: D)
  case Nil
  then obtain dom where f: "filter_raising (qualifies m operator t) (product_range sz (length m)) = Inr dom"
    and r: "gdomains_loop sz (D(m \<mapsto> dom)) post = Inr d"
    by (auto split: sum.splits)
  have "d m = Some dom" using gdomains_loop_other [OF r Nil.prems(2)] by simp
  then show ?case using f by simp
next
  case (Cons c pre)
  then show ?case by (cases c) (auto split: sum.splits)
qed

lemma set_order_pair:
  assumes "set_order ts" and "a \<noteq> b"
  shows "ts [a, b] = [a, b] \<or> ts [a, b] = [b, a]"
proof -
  have d: "distinct (ts [a, b])" and s: "set (ts [a, b]) = {a, b}"
    using assms(1) by (simp_all add: set_order_def)
  have "length (ts [a, b]) = card {a, b}" using distinct_card [OF d] s by simp
  then have "length (ts [a, b]) = 2" using assms(2) by simp
  then obtain x y where xy: "ts [a, b] = [x, y]"
    by (metis (no_types, opaque_lifting) length_0_conv length_Suc_conv numeral_2_eq_2)
  with s d show ?thesis by (auto simp: doubleton_eq_iff)
qed

lemma upto_1_2: "[1..2::int] = [1, 2]"
  by (simp add: upto_rec1)

lemma upto_1_3: "[1..3::int] = [1, 2, 3]"
  by (simp add: upto_rec1)

lemma qualifies_True:
  assumes "qualifies m operator t v = Inr True" and "length v = length m"
  shows "conflicting m v m v = Inr False"
    and "\<exists>p. mset p = mset v \<and> reduce (operation operator) (map of_int p) = Inr t"
proof -
  obtain c where c: "conflicting m v m v = Inr c"
    using conflicting_eq [OF assms(2) assms(2)] by blast
  with assms(1) have nc: "\<not> c" and sat: "satisfies v (operation operator) t = Inr True"
    by (auto simp: qualifies_def split: if_splits)
  show "conflicting m v m v = Inr False" using c nc by simp
  from sat obtain p where "p \<in> set (permutations v)"
    and "reduce (operation operator) (map of_int p) = Inr t"
    unfolding satisfies_def by (blast dest: satisfies_loop_True)
  then show "\<exists>p. mset p = mset v \<and> reduce (operation operator) (map of_int p) = Inr t"
    unfolding set_permutations by blast
qed

lemma gdomains_entry:
  assumes "gdomains sz (pre @ (m, operator, t) # post) = Inr domains"
    and "m \<notin> fst ` set post"
  shows "domains m = Some (filter (\<lambda>v. qualifies m operator t v = Inr True)
                              (product_range sz (length m)))"
proof -
  from gdomains_loop_last [OF assms(1) [unfolded gdomains_def] assms(2)]
  obtain d where "domains m = Some d"
    and "filter_raising (qualifies m operator t) (product_range sz (length m)) = Inr d"
    by blast
  then show ?thesis using filter_raising_Inr by blast
qed

subsection \<open>Entries of the dictionary of domains\<close>

text \<open>
  The entry that \<open>gdomains\<close> returns under a member tuple is the one computed for the
  last clique of the list with these members; each of its tuples passed both filters.
\<close>

lemma gdomains_tuple_sound:
  assumes "gdomains sz (pre @ (members, operator, target) # post) = Inr domains"
    and "members \<notin> fst ` set post"
    and "domains members = Some tuples" and "t \<in> set tuples"
  shows "length t = length members \<and> (\<forall>v \<in> set t. 1 \<le> v \<and> v \<le> sz) \<and>
         conflicting members t members t = Inr False \<and>
         (\<forall>i < length members. \<forall>j < length members.
            ((fst (members ! i) = fst (members ! j)) \<noteq> (snd (members ! i) = snd (members ! j)))
            \<longrightarrow> t ! i \<noteq> t ! j) \<and>
         (\<exists>p. mset p = mset t \<and> reduce (operation operator) (map rat_of_int p) = Inr target)"
proof -
  have dom: "tuples = filter (\<lambda>v. qualifies members operator target v = Inr True)
                     (product_range sz (length members))"
    using gdomains_entry [OF assms(1,2)] assms(3) by simp
  with assms(4) have q: "qualifies members operator target t = Inr True"
    and tp: "t \<in> set (product_range sz (length members))" by simp_all
  from tp have len: "length t = length members" and rng: "\<forall>v \<in> set t. 1 \<le> v \<and> v \<le> sz"
    by (simp_all add: set_product_range)
  note Q = qualifies_True [OF q len]
  have "\<forall>i < length members. \<forall>j < length members.
            ((fst (members ! i) = fst (members ! j)) \<noteq> (snd (members ! i) = snd (members ! j)))
            \<longrightarrow> t ! i \<noteq> t ! j"
    using Q(1) conflicting_eq [OF len len] by (auto simp: RowXorCol_def)
  with len rng Q show ?thesis by blast
qed

text \<open>
  A clique without members makes \<open>gdomains\<close> raise: its only candidate is the empty
  tuple, which does not conflict with itself, and \<open>reduce\<close> of the empty permutation
  raises TypeError. So on a list on which \<open>gdomains\<close> returns every clique has a member.
\<close>

lemma qualifies_no_members: "qualifies [] operator target [] = Inl TypeError"
  by (simp add: qualifies_def conflicting_def satisfies_def)

lemma gdomains_loop_members:
  "gdomains_loop sz D cl = Inr d \<Longrightarrow> (m, operator, target) \<in> set cl \<Longrightarrow> m \<noteq> []"
proof (induction cl arbitrary: D)
  case Nil
  then show ?case by simp
next
  case (Cons c cl)
  obtain m' operator' target' where c: "c = (m', operator', target')" by (cases c)
  from Cons.prems(1) c obtain d' where
    f: "filter_raising (qualifies m' operator' target') (product_range sz (length m')) = Inr d'"
    and r: "gdomains_loop sz (D(m' \<mapsto> d')) cl = Inr d"
    by (auto split: sum.splits)
  show ?case
  proof (cases "(m, operator, target) = c")
    case True
    show ?thesis
    proof
      assume "m = []"
      then have "m' = []" using True c by simp
      then have "filter_raising (qualifies m' operator' target') (product_range sz (length m'))
          = Inl TypeError"
        by (simp add: product_range_def qualifies_no_members)
      with f show False by simp
    qed
  next
    case False
    then have "(m, operator, target) \<in> set cl" using Cons.prems(2) by simp
    then show ?thesis using Cons.IH [OF r] by blast
  qed
qed

lemma validated_last_of_key:
  assumes "set_order tuple_set" and "validate tuple_set sz cliques0 = Inr cliques"
    and "(m, x) \<in> set cliques" and "m \<noteq> []"
  shows "\<exists>pre post. cliques = pre @ (m, x) # post \<and> m \<notin> fst ` set post"
proof -
  from split_list_last [OF assms(3)] obtain pre post where
    cl: "cliques = pre @ (m, x) # post" by blast
  note disj = validate_props(3) [OF assms(1,2)]
  have "m \<notin> fst ` set post"
  proof
    assume "m \<in> fst ` set post"
    then obtain y where y: "y \<in> set post" "fst y = m" by auto
    then obtain k where k: "k < length post" "post ! k = y" by (meson in_set_conv_nth)
    let ?i = "length pre" and ?j = "length pre + Suc k"
    have "?i < length cliques" "?j < length cliques" "?i \<noteq> ?j"
      using cl k by simp_all
    then have "set (fst (cliques ! ?i)) \<inter> set (fst (cliques ! ?j)) = {}"
      using disj by blast
    moreover have "cliques ! ?i = (m, x)" using cl by simp
    moreover have "cliques ! ?j = y" using cl k by (simp add: nth_append)
    ultimately have "set m = {}" using y by simp
    with assms(4) show False by simp
  qed
  with cl show ?thesis by blast
qed

subsection \<open>Soundness of the domains\<close>

text \<open>
  C1. \<open>gdomains\<close> is called on the clique list that \<open>validate\<close> has accepted. For every
  size, every such list on which \<open>gdomains\<close> returns, and every clique
  \<open>(members, operator, target)\<close> of the list with an integer target, each tuple \<open>t\<close> in the
  domain computed for the clique has one value in \<open>1..size\<close> per member,
  \<open>conflicting(members, t, members, t)\<close> is false, so no two positions whose cells agree
  in exactly one of column and row carry equal values, and some permutation of the
  values of \<open>t\<close> folds from the left under the clique's operator to exactly the target.
\<close>

theorem gdomains_sound:
  assumes "set_order tuple_set" and "validate tuple_set sz cliques0 = Inr cliques"
    and "gdomains sz cliques = Inr domains"
    and "(members, operator, rat_of_int target) \<in> set cliques"
    and "domains members = Some tuples" and "t \<in> set tuples"
  shows "length t = length members \<and> (\<forall>v \<in> set t. 1 \<le> v \<and> v \<le> sz) \<and>
         conflicting members t members t = Inr False \<and>
         (\<forall>i < length members. \<forall>j < length members.
            ((fst (members ! i) = fst (members ! j)) \<noteq> (snd (members ! i) = snd (members ! j)))
            \<longrightarrow> t ! i \<noteq> t ! j) \<and>
         (\<exists>p. mset p = mset t \<and>
              reduce (operation operator) (map rat_of_int p) = Inr (rat_of_int target))"
proof -
  have ne: "members \<noteq> []"
    using gdomains_loop_members [OF assms(3) [unfolded gdomains_def] assms(4)] .
  from validated_last_of_key [OF assms(1,2,4) ne] obtain pre post where
    cl: "cliques = pre @ (members, operator, rat_of_int target) # post"
    and last: "members \<notin> fst ` set post" by blast
  show ?thesis
    using gdomains_tuple_sound [OF assms(3) [unfolded cl] last assms(5,6)] .
qed

theorem gdomains_sound_witness:
  "set_order remdups \<and>
   validate remdups 2 [([(1, 1), (1, 2)], ''-'', rat_of_int 1), ([(2, 1), (2, 2)], ''+'', rat_of_int 3)]
     = Inr [([(1, 1), (1, 2)], ''-'', rat_of_int 1), ([(2, 1), (2, 2)], ''+'', rat_of_int 3)] \<and>
   map_sum id (\<lambda>d. d [(1, 1), (1, 2)])
     (gdomains 2 [([(1, 1), (1, 2)], ''-'', rat_of_int 1), ([(2, 1), (2, 2)], ''+'', rat_of_int 3)])
     = Inr (Some [[1, 2], [2, 1]]) \<and>
   length [2, 1 :: int] = length [(1, 1), (1, 2) :: cell] \<and>
   conflicting [(1, 1), (1, 2)] [2, 1] [(1, 1), (1, 2)] [2, 1] = Inr False \<and>
   (\<exists>p. mset p = mset [2, 1 :: int] \<and>
        reduce (operation ''-'') (map rat_of_int p) = Inr (rat_of_int 1))"
proof -
  let ?m = "[(1, 1), (1, 2) :: cell]" and ?m' = "[(2, 1), (2, 2) :: cell]"
  let ?cl = "[(?m, ''-'', rat_of_int 1), (?m', ''+'', rat_of_int 3)] :: clique list"
  let ?d = "[[1, 2], [2, 1 :: int]]"
  have v: "validate remdups 2 ?cl = Inr ?cl"
    by (simp add: upto_1_2 validate_def outOfBounds_def)
  have g: "gdomains 2 ?cl = Inr [?m \<mapsto> ?d, ?m' \<mapsto> ?d]"
    by (simp add: upto_1_2 gdomains_def product_range_def qualifies_def conflicting_def
        satisfies_def operation_def RowXorCol_def)
  have k: "(?m, ''-'', rat_of_int 1) \<in> set ?cl" by simp
  have l: "[?m \<mapsto> ?d, ?m' \<mapsto> ?d] ?m = Some ?d" by simp
  have t: "[2, 1] \<in> set ?d" by simp
  have e: "map_sum id (\<lambda>d. d ?m) (gdomains 2 ?cl) = Inr (Some ?d)"
    unfolding g by simp
  from gdomains_sound [OF set_order_remdups v g k l t] v e set_order_remdups
  show ?thesis by blast
qed

subsection \<open>Domains of single-cell cliques\<close>

lemma filter_eq_distinct:
  "distinct xs \<Longrightarrow> filter (\<lambda>v. v = t) xs = (if t \<in> set xs then [t] else [])"
  by (induction xs) auto

lemma qualifies_single:
  "qualifies [c] operator t [v] = Inr (rat_of_int v = t)"
  by (simp add: qualifies_def conflicting_def RowXorCol_def satisfies_def)

text \<open>
  C8, as stated, fails: \<open>validate\<close> does not look at the target, and a single-cell clique
  whose target is not in \<open>1..size\<close> has the empty domain.
\<close>

theorem single_cell_domain_counterexample:
  "validate remdups 1 [([(1, 1)], ''.'', 5)] = Inr [([(1, 1)], ''.'', 5)] \<and>
   map_sum id (\<lambda>d. d [(1, 1)]) (gdomains 1 [([(1, 1)], ''.'', 5)]) = Inr (Some [])"
  by (simp add: validate_def outOfBounds_def gdomains_def product_range_def qualifies_def
      conflicting_def satisfies_def operation_def RowXorCol_def)

text \<open>
  C8, amended. For every size and every clique list that \<open>validate\<close> accepts and on
  which \<open>gdomains\<close> returns, the domain of a clique with exactly one member and the
  integer target \<open>t\<close> is the single tuple \<open>(t,)\<close> when \<open>1 \<le> t \<le> size\<close>, and empty otherwise;
  the operator of the clique plays no part.
\<close>

theorem single_cell_domain:
  assumes "set_order tuple_set" and "validate tuple_set sz cliques0 = Inr cliques"
    and "gdomains sz cliques = Inr domains"
    and "([c], operator, rat_of_int t) \<in> set cliques"
  shows "domains [c] = Some (if 1 \<le> t \<and> t \<le> sz then [[t]] else [])"
proof -
  let ?x = "([c], operator, rat_of_int t)"
  from split_list_last [OF assms(4)] obtain pre post where
    cl: "cliques = pre @ ?x # post" and "?x \<notin> set post" by blast
  note disj = validate_props(3) [OF assms(1,2)]
  have key: "[c] \<notin> fst ` set post"
  proof
    assume "[c] \<in> fst ` set post"
    then obtain y where y: "y \<in> set post" "fst y = [c]" by auto
    then obtain k where k: "k < length post" "post ! k = y" by (meson in_set_conv_nth)
    let ?i = "length pre" and ?j = "length pre + Suc k"
    have "?i < length cliques" "?j < length cliques" "?i \<noteq> ?j"
      using cl k by simp_all
    then have "set (fst (cliques ! ?i)) \<inter> set (fst (cliques ! ?j)) = {}"
      using disj by blast
    moreover have "cliques ! ?i = ?x" using cl by simp
    moreover have "cliques ! ?j = y" using cl k by (simp add: nth_append)
    ultimately show False using y by simp
  qed
  have "domains [c] = Some (filter (\<lambda>v. qualifies [c] operator (rat_of_int t) v = Inr True)
                              (product_range sz (length [c])))"
    using gdomains_entry [OF assms(3) [unfolded cl] key] .
  also have "product_range sz (length [c]) = map (\<lambda>v. [v]) [1..sz]"
    by (simp add: product_range_def)
  also have "filter (\<lambda>v. qualifies [c] operator (rat_of_int t) v = Inr True) (map (\<lambda>v. [v]) [1..sz])
      = map (\<lambda>v. [v]) (filter (\<lambda>v. v = t) [1..sz])"
    by (simp add: filter_map comp_def qualifies_single)
  also have "filter (\<lambda>v. v = t) [1..sz] = (if 1 \<le> t \<and> t \<le> sz then [t] else [])"
    by (simp add: filter_eq_distinct)
  finally show ?thesis by (simp split: if_splits)
qed


theorem single_cell_domain_witness:
  "set_order remdups \<and> validate remdups 1 [([(1, 1)], ''.'', rat_of_int 1)]
      = Inr [([(1, 1)], ''.'', rat_of_int 1)] \<and>
   (\<exists>domains. gdomains 1 [([(1, 1)], ''.'', rat_of_int 1)] = Inr domains \<and>
      domains [(1, 1)] = Some [[1]])"
proof -
  let ?cl = "[([(1, 1)], ''.'', rat_of_int 1)] :: clique list"
  let ?d = "[[(1, 1) :: cell] \<mapsto> [[1 :: int]]]"
  have v: "validate remdups 1 ?cl = Inr ?cl"
    by (simp add: validate_def outOfBounds_def)
  have g: "gdomains 1 ?cl = Inr ?d"
    by (simp add: gdomains_def product_range_def qualifies_def conflicting_def
        satisfies_def operation_def RowXorCol_def)
  have m: "([(1, 1)], ''.'', rat_of_int 1) \<in> set ?cl" by simp
  from single_cell_domain [OF set_order_remdups v g m] have "?d [(1, 1)] = Some [[1]]" by simp
  with v g set_order_remdups show ?thesis by blast
qed

subsection \<open>gdomains on validated input\<close>

text \<open>
  C7. \<open>validate\<close> accepts the operator \<open>.\<close> on a clique of two cells; on the list it
  returns, in either order of the two members, \<open>gdomains\<close> does not return a domain:
  the first tuple that passes the conflict test, \<open>(1, 2)\<close>, reaches \<open>reduce\<close> with the
  \<open>None\<close> that \<open>operation\<close> gives for \<open>.\<close>, and the call of \<open>None\<close> raises TypeError.
\<close>

theorem gdomains_raises_on_validated:
  assumes "set_order tuple_set"
  shows "\<exists>cliques.
     validate tuple_set 2 [([(1, 1), (2, 1)], ''.'', 3), ([(1, 2)], ''.'', 1), ([(2, 2)], ''.'', 2)]
       = Inr cliques \<and>
     gdomains 2 cliques = Inl TypeError"
proof -
  let ?rest = "[([(1, 2)], ''.'', 1), ([(2, 2)], ''.'', 2)] :: clique list"
  have g1: "gdomains 2 (([(1, 1), (2, 1)], ''.'', 3) # ?rest) = Inl TypeError"
    by (simp add: upto_1_2 gdomains_def product_range_def qualifies_def conflicting_def
        satisfies_def operation_def RowXorCol_def)
  have g2: "gdomains 2 (([(2, 1), (1, 1)], ''.'', 3) # ?rest) = Inl TypeError"
    by (simp add: upto_1_2 gdomains_def product_range_def qualifies_def conflicting_def
        satisfies_def operation_def RowXorCol_def)
  have v: "validate tuple_set 2 (([(1, 1), (2, 1)], ''.'', 3) # ?rest)
      = Inr ((tuple_set [(1, 1), (2, 1)], ''.'', 3) # ?rest)"
    using set_order_pair [OF assms, of "(1, 1)" "(2, 1)"]
    by (auto simp add: validate_def set_order_single [OF assms] outOfBounds_def)
  show ?thesis
    using set_order_pair [OF assms, of "(1, 1)" "(2, 1)"] v g1 g2 by auto
qed

theorem gdomains_raises_on_validated_witness:
  "set_order remdups \<and>
   validate remdups 2 [([(1, 1), (2, 1)], ''.'', 3), ([(1, 2)], ''.'', 1), ([(2, 2)], ''.'', 2)]
     = Inr [([(1, 1), (2, 1)], ''.'', 3), ([(1, 2)], ''.'', 1), ([(2, 2)], ''.'', 2)] \<and>
   gdomains 2 [([(1, 1), (2, 1)], ''.'', 3), ([(1, 2)], ''.'', 1), ([(2, 2)], ''.'', 2)]
     = Inl TypeError"
proof -
  have v: "validate remdups 2 [([(1, 1), (2, 1)], ''.'', 3), ([(1, 2)], ''.'', 1), ([(2, 2)], ''.'', 2)]
     = Inr [([(1, 1), (2, 1)], ''.'', 3), ([(1, 2)], ''.'', 1), ([(2, 2)], ''.'', 2)]"
    by (simp add: upto_1_2 validate_def outOfBounds_def)
  from gdomains_raises_on_validated [OF set_order_remdups] v set_order_remdups
  show ?thesis by auto
qed

subsection \<open>The operator test of validate\<close>

text \<open>
  C9. \<open>validate\<close> tests the operator with \<open>operator not in "+-*/."\<close>, which on strings
  is the substring test: the two-character operator \<open>+-\<close> is none of the five symbols,
  and \<open>validate\<close> accepts the clique instead of leaving with \<open>exit(1)\<close>.
\<close>

theorem validate_accepts_two_symbols:
  assumes "set_order tuple_set"
  shows "validate tuple_set 1 [([(1, 1)], ''+-'', 1)] = Inr [([(1, 1)], ''+-'', 1)]"
  by (simp add: validate_def set_order_single [OF assms] outOfBounds_def)

theorem validate_accepts_two_symbols_witness:
  "set_order remdups \<and> validate remdups 1 [([(1, 1)], ''+-'', 1)] = Inr [([(1, 1)], ''+-'', 1)]"
  using validate_accepts_two_symbols [OF set_order_remdups] set_order_remdups by simp

subsection \<open>The conflict graph\<close>

text \<open>
  Two cliques share a line when a member of one and a member of the other agree in
  exactly one of column and row; \<open>nb_inv\<close> is the invariant of the loops of
  \<open>gneighbors\<close> after the pairs \<open>P\<close> of keys have been visited.
\<close>

definition shares_line :: "cell list \<Rightarrow> cell list \<Rightarrow> bool" where
  "shares_line A B = (\<exists>a \<in> set A. \<exists>b \<in> set B. RowXorCol a b)"

lemma RowXorCol_sym: "RowXorCol a b = RowXorCol b a"
  unfolding RowXorCol_def by (cases "fst a = fst b"; cases "snd a = snd b") auto

lemma shares_line_sym: "shares_line A B = shares_line B A"
  unfolding shares_line_def using RowXorCol_sym by blast

lemma conflicting_sentinel:
  "conflicting A (replicate (length A) (- 1)) B (replicate (length B) (- 1)) = Inr (shares_line A B)"
proof -
  have "conflicting A (replicate (length A) (- 1)) B (replicate (length B) (- 1))
      = Inr (\<exists>i < length A. \<exists>j < length B. RowXorCol (A ! i) (B ! j) \<and>
               replicate (length A) (- 1 :: int) ! i = replicate (length B) (- 1) ! j)"
    by (rule conflicting_eq) simp_all
  moreover have "(\<exists>i < length A. \<exists>j < length B. RowXorCol (A ! i) (B ! j) \<and>
               replicate (length A) (- 1 :: int) ! i = replicate (length B) (- 1) ! j)
      = shares_line A B"
  proof
    assume "\<exists>i < length A. \<exists>j < length B. RowXorCol (A ! i) (B ! j) \<and>
               replicate (length A) (- 1 :: int) ! i = replicate (length B) (- 1) ! j"
    then obtain i j where "i < length A" "j < length B" "RowXorCol (A ! i) (B ! j)" by blast
    then show "shares_line A B" unfolding shares_line_def using nth_mem by blast
  next
    assume "shares_line A B"
    then obtain a b where ab: "a \<in> set A" "b \<in> set B" "RowXorCol a b"
      unfolding shares_line_def by blast
    from ab(1) obtain i where i: "i < length A" "A ! i = a" by (meson in_set_conv_nth)
    from ab(2) obtain j where j: "j < length B" "B ! j = b" by (meson in_set_conv_nth)
    have ij: "i < length A" "j < length B" "RowXorCol (A ! i) (B ! j)"
      using i j ab(3) by simp_all
    then have "replicate (length A) (- 1 :: int) ! i = replicate (length B) (- 1) ! j" by simp
    with ij show "\<exists>i < length A. \<exists>j < length B. RowXorCol (A ! i) (B ! j) \<and>
               replicate (length A) (- 1 :: int) ! i = replicate (length B) (- 1) ! j" by blast
  qed
  ultimately show ?thesis by simp
qed

definition nb_inv :: "cell list set \<Rightarrow> (cell list \<times> cell list) set \<Rightarrow>
    (cell list \<rightharpoonup> cell list list) \<Rightarrow> bool" where
  "nb_inv K P nb = (dom nb = K \<and>
     (\<forall>A \<in> K. \<exists>nA. nb A = Some nA \<and>
        (\<forall>B. B \<in> set nA \<longleftrightarrow>
           A \<noteq> B \<and> shares_line A B \<and> B \<in> K \<and> ((A, B) \<in> P \<or> (B, A) \<in> P))))"

lemma nb_inv_lookup:
  "nb_inv K P nb \<Longrightarrow> A \<in> K \<Longrightarrow> \<exists>nA. nb A = Some nA \<and>
        (\<forall>B. B \<in> set nA \<longleftrightarrow>
           A \<noteq> B \<and> shares_line A B \<and> B \<in> K \<and> ((A, B) \<in> P \<or> (B, A) \<in> P))"
  unfolding nb_inv_def by blast

lemma nb_inv_same:
  assumes "nb_inv K P nb"
    and "A = B \<or> \<not> shares_line A B \<or> (A, B) \<in> P \<or> (B, A) \<in> P"
  shows "nb_inv K (insert (A, B) P) nb"
proof -
  have "(A' \<noteq> B' \<and> shares_line A' B' \<and> B' \<in> K \<and> ((A', B') \<in> insert (A, B) P \<or> (B', A') \<in> insert (A, B) P))
      = (A' \<noteq> B' \<and> shares_line A' B' \<and> B' \<in> K \<and> ((A', B') \<in> P \<or> (B', A') \<in> P))" for A' B'
  proof -
    have "shares_line B A \<Longrightarrow> shares_line A B" using shares_line_sym by blast
    with assms(2) show ?thesis by blast
  qed
  then show ?thesis using assms(1) unfolding nb_inv_def by simp
qed

lemma nb_inv_append:
  assumes inv: "nb_inv K P nb" and A: "A \<in> K" and B: "B \<in> K" and ne: "A \<noteq> B"
    and sh: "shares_line A B" and nA: "nb A = Some nA" and nB: "nb B = Some nB"
  shows "nb_inv K (insert (A, B) P) (nb(A \<mapsto> nA @ [B], B \<mapsto> nB @ [A]))"
proof -
  let ?nb = "nb(A \<mapsto> nA @ [B], B \<mapsto> nB @ [A])"
  let ?P = "insert (A, B) P"
  have domK: "dom nb = K" using inv by (simp add: nb_inv_def)
  have d: "dom ?nb = K" using domK A B by auto
  have cA: "\<forall>X. X \<in> set nA \<longleftrightarrow> A \<noteq> X \<and> shares_line A X \<and> X \<in> K \<and> ((A, X) \<in> P \<or> (X, A) \<in> P)"
    using nb_inv_lookup [OF inv A] nA by simp
  have cB: "\<forall>X. X \<in> set nB \<longleftrightarrow> B \<noteq> X \<and> shares_line B X \<and> X \<in> K \<and> ((B, X) \<in> P \<or> (X, B) \<in> P)"
    using nb_inv_lookup [OF inv B] nB by simp
  have sh': "shares_line B A" using sh shares_line_sym by blast
  have per: "\<exists>nC. ?nb C = Some nC \<and>
        (\<forall>X. X \<in> set nC \<longleftrightarrow> C \<noteq> X \<and> shares_line C X \<and> X \<in> K \<and> ((C, X) \<in> ?P \<or> (X, C) \<in> ?P))"
    if C: "C \<in> K" for C
  proof -
    consider "C = A" | "C = B" | "C \<noteq> A" "C \<noteq> B" by blast
    then show ?thesis
    proof cases
      case 1
      have e: "?nb C = Some (nA @ [B])" using 1 ne by simp
      have f: "X \<in> set (nA @ [B]) \<longleftrightarrow>
          C \<noteq> X \<and> shares_line C X \<and> X \<in> K \<and> ((C, X) \<in> ?P \<or> (X, C) \<in> ?P)" for X
      proof (cases "X = B")
        case True
        then show ?thesis using ne sh B 1 by simp
      next
        case False
        have "X \<in> set (nA @ [B]) \<longleftrightarrow> X \<in> set nA" using False by simp
        also have "\<dots> \<longleftrightarrow> A \<noteq> X \<and> shares_line A X \<and> X \<in> K \<and> ((A, X) \<in> P \<or> (X, A) \<in> P)"
          using cA by blast
        also have "\<dots> \<longleftrightarrow> A \<noteq> X \<and> shares_line A X \<and> X \<in> K \<and> ((A, X) \<in> ?P \<or> (X, A) \<in> ?P)"
          using False ne by blast
        finally show ?thesis unfolding 1 .
      qed
      show ?thesis
      proof (intro exI conjI allI)
        show "?nb C = Some (nA @ [B])" by (rule e)
        show "X \<in> set (nA @ [B]) \<longleftrightarrow>
          C \<noteq> X \<and> shares_line C X \<and> X \<in> K \<and> ((C, X) \<in> ?P \<or> (X, C) \<in> ?P)" for X
          by (rule f)
      qed
    next
      case 2
      have e: "?nb C = Some (nB @ [A])" using 2 by simp
      have f: "X \<in> set (nB @ [A]) \<longleftrightarrow>
          C \<noteq> X \<and> shares_line C X \<and> X \<in> K \<and> ((C, X) \<in> ?P \<or> (X, C) \<in> ?P)" for X
      proof (cases "X = A")
        case True
        then show ?thesis using ne sh' A 2 by simp
      next
        case False
        have "X \<in> set (nB @ [A]) \<longleftrightarrow> X \<in> set nB" using False by simp
        also have "\<dots> \<longleftrightarrow> B \<noteq> X \<and> shares_line B X \<and> X \<in> K \<and> ((B, X) \<in> P \<or> (X, B) \<in> P)"
          using cB by blast
        also have "\<dots> \<longleftrightarrow> B \<noteq> X \<and> shares_line B X \<and> X \<in> K \<and> ((B, X) \<in> ?P \<or> (X, B) \<in> ?P)"
          using False ne by blast
        finally show ?thesis unfolding 2 .
      qed
      show ?thesis
      proof (intro exI conjI allI)
        show "?nb C = Some (nB @ [A])" by (rule e)
        show "X \<in> set (nB @ [A]) \<longleftrightarrow>
          C \<noteq> X \<and> shares_line C X \<and> X \<in> K \<and> ((C, X) \<in> ?P \<or> (X, C) \<in> ?P)" for X
          by (rule f)
      qed
    next
      case 3
      obtain nC where nC: "nb C = Some nC" and cC: "\<forall>X. X \<in> set nC \<longleftrightarrow>
          C \<noteq> X \<and> shares_line C X \<and> X \<in> K \<and> ((C, X) \<in> P \<or> (X, C) \<in> P)"
        using nb_inv_lookup [OF inv C] by blast
      have e: "?nb C = Some nC" using 3 nC by simp
      have f: "X \<in> set nC \<longleftrightarrow>
          C \<noteq> X \<and> shares_line C X \<and> X \<in> K \<and> ((C, X) \<in> ?P \<or> (X, C) \<in> ?P)" for X
      proof -
        have "X \<in> set nC \<longleftrightarrow> C \<noteq> X \<and> shares_line C X \<and> X \<in> K \<and> ((C, X) \<in> P \<or> (X, C) \<in> P)"
          using cC by blast
        also have "\<dots> \<longleftrightarrow> C \<noteq> X \<and> shares_line C X \<and> X \<in> K \<and> ((C, X) \<in> ?P \<or> (X, C) \<in> ?P)"
          using 3 by blast
        finally show ?thesis .
      qed
      show ?thesis
      proof (intro exI conjI allI)
        show "?nb C = Some nC" by (rule e)
        show "X \<in> set nC \<longleftrightarrow>
          C \<noteq> X \<and> shares_line C X \<and> X \<in> K \<and> ((C, X) \<in> ?P \<or> (X, C) \<in> ?P)" for X
          by (rule f)
      qed
    qed
  qed
  show ?thesis
    unfolding nb_inv_def
  proof (intro conjI ballI)
    show "dom ?nb = K" by (rule d)
  next
    fix C assume "C \<in> K"
    then show "\<exists>nC. ?nb C = Some nC \<and>
        (\<forall>X. X \<in> set nC \<longleftrightarrow> C \<noteq> X \<and> shares_line C X \<and> X \<in> K \<and> ((C, X) \<in> ?P \<or> (X, C) \<in> ?P))"
      by (rule per)
  qed
qed

lemma gneighbors_step_inv:
  assumes inv: "nb_inv K P nb" and A: "A \<in> K" and B: "B \<in> K"
  shows "\<exists>nb'. gneighbors_step nb A B = Inr nb' \<and> nb_inv K (insert (A, B) P) nb'"
proof (cases "A = B")
  case True
  then show ?thesis using nb_inv_same [OF inv] by (simp add: gneighbors_step_def)
next
  case ne: False
  obtain nA where nA: "nb A = Some nA" and cA: "\<forall>X. X \<in> set nA \<longleftrightarrow>
      A \<noteq> X \<and> shares_line A X \<and> X \<in> K \<and> ((A, X) \<in> P \<or> (X, A) \<in> P)"
    using nb_inv_lookup [OF inv A] by blast
  obtain nB where nB: "nb B = Some nB"
    using nb_inv_lookup [OF inv B] by blast
  show ?thesis
  proof (cases "B \<in> set nA")
    case True
    then have "(A, B) \<in> P \<or> (B, A) \<in> P" using cA by blast
    then have "nb_inv K (insert (A, B) P) nb" using nb_inv_same [OF inv] by blast
    then show ?thesis using ne nA True by (simp add: gneighbors_step_def)
  next
    case notin: False
    show ?thesis
    proof (cases "shares_line A B")
      case True
      have "gneighbors_step nb A B = Inr (nb(A \<mapsto> nA @ [B], B \<mapsto> nB @ [A]))"
        using ne nA nB notin True by (simp add: gneighbors_step_def conflicting_sentinel)
      then show ?thesis using nb_inv_append [OF inv A B ne True nA nB] by simp
    next
      case False
      then have "nb_inv K (insert (A, B) P) nb" using nb_inv_same [OF inv] by blast
      then show ?thesis using ne nA notin False
        by (simp add: gneighbors_step_def conflicting_sentinel)
    qed
  qed
qed

lemma gneighbors_inner_inv:
  "nb_inv K P nb \<Longrightarrow> A \<in> K \<Longrightarrow> set Bs \<subseteq> K \<Longrightarrow>
     \<exists>nb'. gneighbors_inner nb A Bs = Inr nb' \<and> nb_inv K (P \<union> {A} \<times> set Bs) nb'"
proof (induction Bs arbitrary: nb P)
  case Nil
  then show ?case by simp
next
  case (Cons B Bs)
  from gneighbors_step_inv [OF Cons.prems(1,2), of B] Cons.prems(3)
  obtain nb1 where s: "gneighbors_step nb A B = Inr nb1" and i: "nb_inv K (insert (A, B) P) nb1"
    by auto
  from Cons.IH [OF i Cons.prems(2)] Cons.prems(3)
  obtain nb' where r: "gneighbors_inner nb1 A Bs = Inr nb'"
    and i': "nb_inv K (insert (A, B) P \<union> {A} \<times> set Bs) nb'" by auto
  have "insert (A, B) P \<union> {A} \<times> set Bs = P \<union> {A} \<times> set (B # Bs)" by auto
  then show ?case using s r i' by simp
qed

lemma gneighbors_outer_inv:
  "nb_inv K P nb \<Longrightarrow> set As \<subseteq> K \<Longrightarrow> set Bs \<subseteq> K \<Longrightarrow>
     \<exists>nb'. gneighbors_outer nb As Bs = Inr nb' \<and> nb_inv K (P \<union> set As \<times> set Bs) nb'"
proof (induction As arbitrary: nb P)
  case Nil
  then show ?case by simp
next
  case (Cons A As)
  from gneighbors_inner_inv [OF Cons.prems(1) _ Cons.prems(3), of A] Cons.prems(2)
  obtain nb1 where s: "gneighbors_inner nb A Bs = Inr nb1"
    and i: "nb_inv K (P \<union> {A} \<times> set Bs) nb1" by auto
  from Cons.IH [OF i _ Cons.prems(3)] Cons.prems(2)
  obtain nb' where r: "gneighbors_outer nb1 As Bs = Inr nb'"
    and i': "nb_inv K (P \<union> {A} \<times> set Bs \<union> set As \<times> set Bs) nb'" by auto
  have "P \<union> {A} \<times> set Bs \<union> set As \<times> set Bs = P \<union> set (A # As) \<times> set Bs" by auto
  then show ?case using s r i' by simp
qed

lemma fold_empty_lists:
  "fold (\<lambda>members nb. nb(members \<mapsto> [])) keys nb0 =
     (\<lambda>k. if k \<in> set keys then Some [] else nb0 k)"
  by (induction keys arbitrary: nb0) (auto simp: fun_eq_iff)

lemma gneighbors_result:
  "\<exists>nb. gneighbors cliques = Inr nb \<and> dom nb = fst ` set cliques \<and>
     (\<forall>A \<in> fst ` set cliques. \<exists>nA. nb A = Some nA \<and>
        (\<forall>B. B \<in> set nA \<longleftrightarrow> A \<noteq> B \<and> shares_line A B \<and> B \<in> fst ` set cliques))"
proof -
  let ?keys = "map fst cliques"
  let ?K = "set ?keys"
  let ?nb0 = "fold (\<lambda>members nb. nb(members \<mapsto> [])) ?keys Map.empty"
  have "nb_inv ?K {} ?nb0"
    unfolding fold_empty_lists nb_inv_def by (auto simp: dom_def)
  from gneighbors_outer_inv [OF this, of ?keys ?keys]
  obtain nb where r: "gneighbors_outer ?nb0 ?keys ?keys = Inr nb"
    and i: "nb_inv ?K ({} \<union> ?K \<times> ?K) nb" by auto
  have "gneighbors cliques = Inr nb" using r by (simp add: gneighbors_def Let_def)
  moreover have "dom nb = fst ` set cliques" using i by (simp add: nb_inv_def)
  moreover have "\<forall>A \<in> fst ` set cliques. \<exists>nA. nb A = Some nA \<and>
        (\<forall>B. B \<in> set nA \<longleftrightarrow> A \<noteq> B \<and> shares_line A B \<and> B \<in> fst ` set cliques)"
  proof
    fix A assume A: "A \<in> fst ` set cliques"
    then have "A \<in> ?K" by simp
    from nb_inv_lookup [OF i this] obtain nA where "nb A = Some nA"
      and "\<forall>B. B \<in> set nA \<longleftrightarrow> A \<noteq> B \<and> shares_line A B \<and> B \<in> ?K \<and>
             ((A, B) \<in> {} \<union> ?K \<times> ?K \<or> (B, A) \<in> {} \<union> ?K \<times> ?K)" by blast
    then show "\<exists>nA. nb A = Some nA \<and>
        (\<forall>B. B \<in> set nA \<longleftrightarrow> A \<noteq> B \<and> shares_line A B \<and> B \<in> fst ` set cliques)"
      using A by auto
  qed
  ultimately show ?thesis by blast
qed


text \<open>
  C3. For every clique list that \<open>validate\<close> accepts, \<open>gneighbors\<close> returns a dictionary
  in which, for two cliques at different positions of the list, the second is in the
  neighbour list of the first exactly when some member of the first and some member of
  the second agree in exactly one of column and row; being a neighbour is symmetric, and
  no clique is in its own neighbour list.
\<close>

theorem gneighbors_graph:
  assumes "set_order tuple_set" and "validate tuple_set sz cliques0 = Inr cliques"
  shows "\<exists>neighbors. gneighbors cliques = Inr neighbors \<and>
     (\<forall>i < length cliques. \<forall>j < length cliques. i \<noteq> j \<longrightarrow>
        (\<exists>nA. neighbors (fst (cliques ! i)) = Some nA \<and>
           (fst (cliques ! j) \<in> set nA \<longleftrightarrow>
              (\<exists>a \<in> set (fst (cliques ! i)). \<exists>b \<in> set (fst (cliques ! j)).
                 (fst a = fst b) \<noteq> (snd a = snd b))))) \<and>
     (\<forall>A B nA nB. neighbors A = Some nA \<longrightarrow> neighbors B = Some nB \<longrightarrow>
        (B \<in> set nA \<longleftrightarrow> A \<in> set nB)) \<and>
     (\<forall>A nA. neighbors A = Some nA \<longrightarrow> A \<notin> set nA)"
proof -
  let ?K = "fst ` set cliques"
  from gneighbors_result [of cliques] obtain nb where
    g: "gneighbors cliques = Inr nb" and d: "dom nb = ?K"
    and c: "\<forall>A \<in> ?K. \<exists>nA. nb A = Some nA \<and>
        (\<forall>B. B \<in> set nA \<longleftrightarrow> A \<noteq> B \<and> shares_line A B \<and> B \<in> ?K)"
    by blast
  note disj = validate_props(3) [OF assms]
  have lk: "B \<in> set nA \<longleftrightarrow> A \<noteq> B \<and> shares_line A B \<and> B \<in> ?K"
    if "nb A = Some nA" for A B nA
  proof -
    have "A \<in> dom nb" using that by (rule domI)
    then have "A \<in> ?K" using d by simp
    with c obtain nA' where "nb A = Some nA'"
      and "\<forall>B. B \<in> set nA' \<longleftrightarrow> A \<noteq> B \<and> shares_line A B \<and> B \<in> ?K" by blast
    with that show ?thesis by simp
  qed
  have p1: "\<exists>nA. nb (fst (cliques ! i)) = Some nA \<and>
           (fst (cliques ! j) \<in> set nA \<longleftrightarrow>
              (\<exists>a \<in> set (fst (cliques ! i)). \<exists>b \<in> set (fst (cliques ! j)).
                 (fst a = fst b) \<noteq> (snd a = snd b)))"
    if ij: "i < length cliques" "j < length cliques" "i \<noteq> j" for i j
  proof -
    let ?A = "fst (cliques ! i)" and ?B = "fst (cliques ! j)"
    have A: "?A \<in> ?K" and B: "?B \<in> ?K" using ij by simp_all
    from c A obtain nA where nA: "nb ?A = Some nA"
      and cA: "\<forall>B. B \<in> set nA \<longleftrightarrow> ?A \<noteq> B \<and> shares_line ?A B \<and> B \<in> ?K" by blast
    have dj: "set ?A \<inter> set ?B = {}" using disj ij by blast
    have "shares_line ?A ?B \<Longrightarrow> ?A \<noteq> ?B"
    proof
      assume sh: "shares_line ?A ?B" and eq: "?A = ?B"
      from sh obtain a where "a \<in> set ?A" unfolding shares_line_def by blast
      with dj eq show False by auto
    qed
    then have "?B \<in> set nA \<longleftrightarrow> shares_line ?A ?B" using cA B by blast
    then have "?B \<in> set nA \<longleftrightarrow>
        (\<exists>a \<in> set ?A. \<exists>b \<in> set ?B. (fst a = fst b) \<noteq> (snd a = snd b))"
      by (simp add: shares_line_def RowXorCol_def)
    with nA show ?thesis by blast
  qed
  have p2: "B \<in> set nA \<longleftrightarrow> A \<in> set nB" if "nb A = Some nA" "nb B = Some nB" for A B nA nB
  proof -
    have "A \<in> dom nb" "B \<in> dom nb" using that by (simp_all add: domI)
    then have A: "A \<in> ?K" and B: "B \<in> ?K" using d by simp_all
    have "B \<in> set nA \<longleftrightarrow> A \<noteq> B \<and> shares_line A B" using lk [OF that(1)] B by simp
    moreover have "A \<in> set nB \<longleftrightarrow> B \<noteq> A \<and> shares_line B A" using lk [OF that(2)] A by simp
    moreover have "shares_line A B \<longleftrightarrow> shares_line B A" by (rule shares_line_sym)
    ultimately show ?thesis by blast
  qed
  have p3: "A \<notin> set nA" if "nb A = Some nA" for A nA
  proof -
    show ?thesis using lk [OF that, of A] by simp
  qed
  show ?thesis
  proof (rule exI [of _ nb], intro conjI allI impI)
    show "gneighbors cliques = Inr nb" by (rule g)
  next
    fix i j assume "i < length cliques" "j < length cliques" "i \<noteq> j"
    then show "\<exists>nA. nb (fst (cliques ! i)) = Some nA \<and>
           (fst (cliques ! j) \<in> set nA \<longleftrightarrow>
              (\<exists>a \<in> set (fst (cliques ! i)). \<exists>b \<in> set (fst (cliques ! j)).
                 (fst a = fst b) \<noteq> (snd a = snd b)))"
      by (rule p1)
  next
    fix A B nA nB assume "nb A = Some nA" "nb B = Some nB"
    then show "B \<in> set nA \<longleftrightarrow> A \<in> set nB" by (rule p2)
  next
    fix A nA assume "nb A = Some nA"
    then show "A \<notin> set nA" by (rule p3)
  qed
qed

theorem gneighbors_graph_witness:
  "set_order remdups \<and>
   validate remdups 2 [([(1, 1), (2, 1)], ''+'', 3), ([(1, 2)], ''.'', 2), ([(2, 2)], ''.'', 1)]
     = Inr [([(1, 1), (2, 1)], ''+'', 3), ([(1, 2)], ''.'', 2), ([(2, 2)], ''.'', 1)] \<and>
   (\<exists>neighbors nA nB.
      gneighbors [([(1, 1), (2, 1)], ''+'', 3), ([(1, 2)], ''.'', 2), ([(2, 2)], ''.'', 1)]
        = Inr neighbors \<and>
      neighbors [(1, 1), (2, 1)] = Some nA \<and> [(1, 2)] \<in> set nA \<and>
      neighbors [(1, 2)] = Some nB \<and> [(1, 1), (2, 1)] \<in> set nB \<and> [(1, 2)] \<notin> set nB)"
proof -
  let ?cl = "[([(1, 1), (2, 1)], ''+'', 3), ([(1, 2)], ''.'', 2), ([(2, 2)], ''.'', 1)] :: clique list"
  have v: "validate remdups 2 ?cl = Inr ?cl"
    by (simp add: upto_1_2 validate_def outOfBounds_def)
  from gneighbors_graph [OF set_order_remdups v] obtain nb where
    g: "gneighbors ?cl = Inr nb"
    and p1: "\<forall>i < length ?cl. \<forall>j < length ?cl. i \<noteq> j \<longrightarrow>
        (\<exists>nA. nb (fst (?cl ! i)) = Some nA \<and>
           (fst (?cl ! j) \<in> set nA \<longleftrightarrow>
              (\<exists>a \<in> set (fst (?cl ! i)). \<exists>b \<in> set (fst (?cl ! j)).
                 (fst a = fst b) \<noteq> (snd a = snd b))))"
    and p2: "\<forall>A B nA nB. nb A = Some nA \<longrightarrow> nb B = Some nB \<longrightarrow>
        (B \<in> set nA \<longleftrightarrow> A \<in> set nB)"
    and p3: "\<forall>A nA. nb A = Some nA \<longrightarrow> A \<notin> set nA"
    by blast
  from p1 [rule_format, of 0 1] obtain nA where
    nA: "nb [(1, 1), (2, 1)] = Some nA" "[(1, 2)] \<in> set nA" by auto
  from p1 [rule_format, of 1 0] obtain nB where
    nB: "nb [(1, 2)] = Some nB" "[(1, 1), (2, 1)] \<in> set nB" by auto
  have "[(1, 2)] \<notin> set nB" using p3 nB(1) by blast
  with v g nA nB set_order_remdups show ?thesis by blast
qed

subsection \<open>The board of generate is a Latin square\<close>

text \<open>
  \<open>latin n b\<close>: \<open>b\<close> has \<open>n\<close> rows of \<open>n\<close> values in \<open>1..n\<close>, no value twice in a
  row and no value twice in a column.
\<close>

definition latin :: "nat \<Rightarrow> int list list \<Rightarrow> bool" where
  "latin n b = (length b = n \<and>
     (\<forall>row \<in> set b. length row = n \<and> distinct row \<and> (\<forall>v \<in> set row. 1 \<le> v \<and> v \<le> int n)) \<and>
     (\<forall>j < n. distinct (map (\<lambda>row. row ! j) b)))"

lemma cyclic_inj:
  assumes "i < n" "i' < n" "(int i + int j) mod int n = (int i' + int j) mod int n"
  shows "i = i'"
proof -
  have "int n dvd (int i + int j) - (int i' + int j)"
    using assms(3) by (simp add: mod_eq_dvd_iff)
  then have d: "int n dvd int i - int i'" by simp
  show ?thesis
  proof (rule ccontr)
    assume "i \<noteq> i'"
    then have "int i - int i' \<noteq> 0" by simp
    with d have "int n \<le> \<bar>int i - int i'\<bar>"
      using dvd_imp_le_int [of "int i - int i'" "int n"] by simp
    moreover have "\<bar>int i - int i'\<bar> < int n" using assms(1,2) by auto
    ultimately show False by simp
  qed
qed

lemma latin_init:
  "latin n (map (\<lambda>j. map (\<lambda>i. (int i + int j) mod int n + 1) [0..<n]) [0..<n])"
proof -
  let ?b = "map (\<lambda>j. map (\<lambda>i. (int i + int j) mod int n + 1) [0..<n]) [0..<n]"
  have rows: "length row = n \<and> distinct row \<and> (\<forall>v \<in> set row. 1 \<le> v \<and> v \<le> int n)"
    if "row \<in> set ?b" for row
  proof -
    from that obtain j where j: "j < n" and row: "row = map (\<lambda>i. (int i + int j) mod int n + 1) [0..<n]"
      by auto
    have "inj_on (\<lambda>i. (int i + int j) mod int n + 1) (set [0..<n])"
      by (rule inj_onI) (auto dest: cyclic_inj)
    then have "distinct row" unfolding row by (simp add: distinct_map)
    moreover have "\<forall>v \<in> set row. 1 \<le> v \<and> v \<le> int n"
    proof
      fix v assume "v \<in> set row"
      then obtain i where i: "i < n" and v: "v = (int i + int j) mod int n + 1"
        unfolding row by auto
      have pos: "0 < int n" using i by simp
      have lo: "0 \<le> (int i + int j) mod int n" using pos by simp
      have hi: "(int i + int j) mod int n < int n" using pos by simp
      show "1 \<le> v \<and> v \<le> int n" using lo hi v by simp
    qed
    ultimately show ?thesis unfolding row by simp
  qed
  have cols: "distinct (map (\<lambda>row. row ! c) ?b)" if c: "c < n" for c
  proof -
    have eq: "map (\<lambda>row. row ! c) ?b = map (\<lambda>j. (int c + int j) mod int n + 1) [0..<n]"
      using c by (simp add: comp_def)
    have "inj_on (\<lambda>j. (int c + int j) mod int n + 1) (set [0..<n])"
    proof (rule inj_onI)
      fix j j' assume "j \<in> set [0..<n]" "j' \<in> set [0..<n]"
        and "(int c + int j) mod int n + 1 = (int c + int j') mod int n + 1"
      then have "j < n" "j' < n" "(int j + int c) mod int n = (int j' + int c) mod int n"
        by (simp_all add: add.commute)
      then show "j = j'" by (rule cyclic_inj)
    qed
    then have "distinct (map (\<lambda>j. (int c + int j) mod int n + 1) [0..<n])"
      by (simp add: distinct_map)
    then show ?thesis unfolding eq .
  qed
  show ?thesis unfolding latin_def using rows cols by simp
qed

lemma latin_mset:
  assumes "latin n b" and "mset b' = mset b"
  shows "latin n b'"
proof -
  have s: "set b' = set b" using assms(2) by (rule mset_eq_setD)
  have l: "length b' = length b" using assms(2) by (rule mset_eq_length)
  have "distinct (map (\<lambda>row. row ! j) b')" if "j < n" for j
  proof -
    have "mset (map (\<lambda>row. row ! j) b') = mset (map (\<lambda>row. row ! j) b)"
      using assms(2) by (metis mset_map)
    moreover have "distinct (map (\<lambda>row. row ! j) b)" using assms(1) that by (simp add: latin_def)
    ultimately show ?thesis using mset_eq_imp_distinct_iff by blast
  qed
  then show ?thesis using assms(1) s l unfolding latin_def by simp
qed

lemma mset_shuffle_loop:
  "\<forall>i \<in> set is. i < length x \<Longrightarrow> mset (fst (shuffle_loop r is x k)) = mset x"
proof (induction "is" arbitrary: x k)
  case Nil
  then show ?case by simp
next
  case (Cons i "is")
  let ?j = "r k mod (i + 1)"
  let ?x = "x[i := x ! ?j, ?j := x ! i]"
  have i: "i < length x" using Cons.prems by simp
  have "r k mod (i + 1) < i + 1" by (rule mod_less_divisor) simp
  then have j: "?j < length x" using i by linarith
  have "mset ?x = mset x" using i j by (simp add: mset_swap)
  moreover have "mset (fst (shuffle_loop r is ?x (Suc k))) = mset ?x"
    using Cons.prems by (intro Cons.IH) simp
  ultimately show ?case by (simp add: Let_def)
qed

lemma mset_shuffle: "mset (fst (shuffle r x k)) = mset x"
  unfolding shuffle_def by (rule mset_shuffle_loop) auto

lemma mset_shuffle_times: "mset (fst (shuffle_times r n x k)) = mset x"
proof (induction n arbitrary: x k)
  case 0
  then show ?case by simp
next
  case (Suc n)
  obtain x' k' where s: "shuffle r x k = (x', k')" by (cases "shuffle r x k")
  have "mset x' = mset x" using mset_shuffle [of r x k] s by simp
  then show ?case using Suc.IH [of x' k'] s by simp
qed

lemma fold_update_prefix:
  "m \<le> length b \<Longrightarrow>
     fold (\<lambda>i b. b[i := f (b ! i)]) [0..<m] b = map f (take m b) @ drop m b"
proof (induction m)
  case 0
  then show ?case by simp
next
  case (Suc m)
  then have m: "m < length b" by simp
  have "fold (\<lambda>i b. b[i := f (b ! i)]) [0..<Suc m] b
      = (map f (take m b) @ drop m b)[m := f ((map f (take m b) @ drop m b) ! m)]"
    using Suc by simp
  also have "(map f (take m b) @ drop m b) ! m = b ! m"
    using m by (simp add: nth_append)
  also have "(map f (take m b) @ drop m b)[m := f (b ! m)]
      = map f (take m b) @ (drop m b)[0 := f (b ! m)]"
    using m by (simp add: list_update_append)
  also have "drop m b = b ! m # drop (Suc m) b" using m by (simp add: Cons_nth_drop_Suc)
  also have "map f (take m b) @ (b ! m # drop (Suc m) b)[0 := f (b ! m)]
      = map f (take (Suc m) b) @ drop (Suc m) b"
    using m by (simp add: take_Suc_conv_app_nth)
  finally show ?case .
qed

lemma swap_columns_map:
  "length b = n \<Longrightarrow>
     swap_columns n c1 c2 b = map (\<lambda>row. row[c1 := row ! c2, c2 := row ! c1]) b"
  unfolding swap_columns_def
  using fold_update_prefix [of n b "\<lambda>row. row[c1 := row ! c2, c2 := row ! c1]"] by simp

lemma latin_swap_columns:
  assumes "latin n b" and c1: "c1 < n" and c2: "c2 < n"
  shows "latin n (swap_columns n c1 c2 b)"
proof -
  let ?sw = "\<lambda>row :: int list. row[c1 := row ! c2, c2 := row ! c1]"
  have len: "length b = n" using assms(1) by (simp add: latin_def)
  have eq: "swap_columns n c1 c2 b = map ?sw b" using len by (rule swap_columns_map)
  have rowlen: "\<And>row. row \<in> set b \<Longrightarrow> length row = n" using assms(1) by (simp add: latin_def)
  have rows: "length row' = n \<and> distinct row' \<and> (\<forall>v \<in> set row'. 1 \<le> v \<and> v \<le> int n)"
    if "row' \<in> set (map ?sw b)" for row'
  proof -
    from that obtain row where row: "row \<in> set b" "row' = ?sw row" by auto
    have R: "length row = n" "distinct row" "\<forall>v \<in> set row. 1 \<le> v \<and> v \<le> int n"
      using assms(1) row(1) by (simp_all add: latin_def)
    have m: "mset row' = mset row" unfolding row(2) using R(1) c1 c2 by (simp add: mset_swap)
    have "distinct row'" using m R(2) mset_eq_imp_distinct_iff by blast
    moreover have "set row' = set row" using m by (rule mset_eq_setD)
    moreover have "length row' = n" unfolding row(2) using R(1) by simp
    ultimately show ?thesis using R(3) by simp
  qed
  have cols: "distinct (map (\<lambda>row. row ! j) (map ?sw b))" if j: "j < n" for j
  proof -
    let ?t = "if j = c2 then c1 else if j = c1 then c2 else j"
    have "?sw row ! j = row ! ?t" if "row \<in> set b" for row
      using rowlen [OF that] j c1 c2 by (simp add: nth_list_update)
    then have e1: "map (\<lambda>row. ?sw row ! j) b = map (\<lambda>row. row ! ?t) b"
      by (intro map_cong) simp_all
    have e2: "map (\<lambda>row. row ! j) (map ?sw b) = map (\<lambda>row. ?sw row ! j) b"
      by (simp add: comp_def)
    have "?t < n" using j c1 c2 by simp
    then have "distinct (map (\<lambda>row. row ! ?t) b)" using assms(1) unfolding latin_def by blast
    then show ?thesis unfolding e2 e1 .
  qed
  show ?thesis unfolding eq latin_def using rows cols len by simp
qed

lemma latin_swap_loop:
  "latin n b \<Longrightarrow> \<forall>(c1, c2) \<in> set cs. c1 < n \<and> c2 < n \<Longrightarrow>
     latin n (fst (swap_loop r n cs b k))"
proof (induction cs arbitrary: b k)
  case Nil
  then show ?case by simp
next
  case (Cons c cs)
  obtain c1 c2 where c: "c = (c1, c2)" by (cases c)
  have "latin n (if odd (r k) then swap_columns n c1 c2 b else b)"
    using Cons.prems c by (simp add: latin_swap_columns)
  then show ?case using Cons.IH Cons.prems(2) c by simp
qed

lemma latin_board_rows: "latin (nat sz) (fst (board_rows r sz))"
proof (cases "0 \<le> sz")
  case True
  let ?n = "nat sz"
  let ?b0 = "map (\<lambda>j. map (\<lambda>i. (int i + int j) mod sz + 1) [0..<?n]) [0..<?n]"
  have "latin ?n ?b0" using latin_init [of ?n] True by simp
  then have "latin ?n (fst (shuffle_times r ?n ?b0 0))"
    using latin_mset mset_shuffle_times by blast
  then have "latin ?n (fst (swap_loop r ?n (List.product [0..<?n] [0..<?n])
      (fst (shuffle_times r ?n ?b0 0)) (snd (shuffle_times r ?n ?b0 0))))"
    by (rule latin_swap_loop) auto
  then show ?thesis by (simp add: board_rows_def Let_def split_beta)
next
  case False
  then have "nat sz = 0" by simp
  then show ?thesis by (simp add: board_rows_def Let_def latin_def)
qed

subsection \<open>The dictionary of the board\<close>

text \<open>
  \<open>grid sz\<close> is the set of the cells of the board. \<open>good_board\<close> is what the loop of
  \<open>generate\<close> needs of the dictionary: every cell of the grid has a value in \<open>1..size\<close>,
  and two cells that agree in exactly one of column and row have different values.
\<close>

definition grid :: "int \<Rightarrow> cell set" where
  "grid sz = {1..sz} \<times> {1..sz}"

definition good_board :: "int \<Rightarrow> (cell \<rightharpoonup> int) \<Rightarrow> bool" where
  "good_board sz board =
     ((\<forall>c \<in> grid sz. \<exists>v. board c = Some v \<and> 1 \<le> v \<and> v \<le> sz) \<and>
      (\<forall>c \<in> grid sz. \<forall>c' \<in> grid sz. RowXorCol c c' \<longrightarrow> board c \<noteq> board c'))"

lemma board_items_product:
  "board_items sz b =
     map (\<lambda>(i, j). ((int j + 1, int i + 1), b ! i ! j)) (List.product [0..<nat sz] [0..<nat sz])"
  by (simp add: board_items_def product_concat_map map_concat comp_def)

lemma board_keys:
  "map fst (board_items sz b) =
     map (\<lambda>(i, j). (int j + 1, int i + 1)) (List.product [0..<nat sz] [0..<nat sz])"
  by (simp add: board_items_product comp_def split_beta)

lemma distinct_board_keys: "distinct (map fst (board_items sz b))"
proof -
  have "inj_on (\<lambda>(i, j). (int j + 1, int i + 1)) (set (List.product [0..<nat sz] [0..<nat sz]))"
    by (rule inj_onI) auto
  then show ?thesis unfolding board_keys by (simp add: distinct_map distinct_product)
qed

lemma set_board_keys: "set (map fst (board_items sz b)) = grid sz"
proof (intro set_eqI iffI)
  fix c assume "c \<in> set (map fst (board_items sz b))"
  then obtain i j where "i < nat sz" "j < nat sz" "c = (int j + 1, int i + 1)"
    unfolding board_keys by auto
  then show "c \<in> grid sz" by (auto simp: grid_def)
next
  fix c assume "c \<in> grid sz"
  then obtain x y where c: "c = (x, y)" and x: "1 \<le> x" "x \<le> sz" and y: "1 \<le> y" "y \<le> sz"
    by (auto simp: grid_def)
  let ?i = "nat (y - 1)" and ?j = "nat (x - 1)"
  have "?i < nat sz" "?j < nat sz" "c = (int ?j + 1, int ?i + 1)"
    using c x y by auto
  then have "c \<in> (\<lambda>(i, j). (int j + 1, int i + 1)) ` ({0..<nat sz} \<times> {0..<nat sz})"
    by (intro image_eqI [where x = "(?i, ?j)"]) auto
  then show "c \<in> set (map fst (board_items sz b))" unfolding board_keys by simp
qed

lemma board_lookup:
  assumes "i < nat sz" and "j < nat sz"
  shows "map_of (board_items sz b) (int j + 1, int i + 1) = Some (b ! i ! j)"
proof -
  have "((int j + 1, int i + 1), b ! i ! j) \<in> set (board_items sz b)"
    unfolding board_items_product using assms
    by (auto intro!: image_eqI [where x = "(i, j)"])
  then show ?thesis using distinct_board_keys by (simp add: map_of_eq_Some_iff)
qed

lemma grid_index:
  assumes "c \<in> grid sz"
  obtains i j where "i < nat sz" "j < nat sz" "c = (int j + 1, int i + 1)"
proof -
  from assms obtain x y where c: "c = (x, y)" and x: "1 \<le> x" "x \<le> sz" and y: "1 \<le> y" "y \<le> sz"
    by (auto simp: grid_def)
  have "nat (y - 1) < nat sz" "nat (x - 1) < nat sz" "c = (int (nat (x - 1)) + 1, int (nat (y - 1)) + 1)"
    using c x y by auto
  then show ?thesis by (rule that)
qed

lemma good_board_latin:
  assumes "latin (nat sz) b"
  shows "good_board sz (map_of (board_items sz b))"
proof -
  let ?n = "nat sz"
  let ?board = "map_of (board_items sz b)"
  have len: "length b = ?n" using assms by (simp add: latin_def)
  have row: "length (b ! i) = ?n" "distinct (b ! i)" "\<forall>v \<in> set (b ! i). 1 \<le> v \<and> v \<le> int ?n"
    if "i < ?n" for i
  proof -
    have "b ! i \<in> set b" using that len by simp
    then show "length (b ! i) = ?n" "distinct (b ! i)" "\<forall>v \<in> set (b ! i). 1 \<le> v \<and> v \<le> int ?n"
      using assms unfolding latin_def by blast+
  qed
  have col: "distinct (map (\<lambda>row. row ! j) b)" if "j < ?n" for j
    using assms that unfolding latin_def by blast
  have vals: "\<exists>v. ?board c = Some v \<and> 1 \<le> v \<and> v \<le> sz" if "c \<in> grid sz" for c
  proof -
    from that obtain i j where ij: "i < ?n" "j < ?n" "c = (int j + 1, int i + 1)"
      by (rule grid_index)
    have "b ! i ! j \<in> set (b ! i)" using row(1) [OF ij(1)] ij(2) by simp
    then have "1 \<le> b ! i ! j \<and> b ! i ! j \<le> int ?n" using row(3) [OF ij(1)] by blast
    moreover have "int ?n = sz" using ij(1) by simp
    ultimately show ?thesis using board_lookup [OF ij(1,2), of b] ij(3) by simp
  qed
  have diff: "?board c \<noteq> ?board c'" if "c \<in> grid sz" "c' \<in> grid sz" "RowXorCol c c'" for c c'
  proof -
    from that(1) obtain i j where ij: "i < ?n" "j < ?n" "c = (int j + 1, int i + 1)"
      by (rule grid_index)
    from that(2) obtain i' j' where ij': "i' < ?n" "j' < ?n" "c' = (int j' + 1, int i' + 1)"
      by (rule grid_index)
    have L: "?board c = Some (b ! i ! j)" "?board c' = Some (b ! i' ! j')"
      using board_lookup [OF ij(1,2), of b] board_lookup [OF ij'(1,2), of b] ij(3) ij'(3) by simp_all
    from that(3) have "(j = j') \<noteq> (i = i')" unfolding ij(3) ij'(3) RowXorCol_def by simp
    then consider "i = i'" "j \<noteq> j'" | "j = j'" "i \<noteq> i'" by blast
    then have "b ! i ! j \<noteq> b ! i' ! j'"
    proof cases
      case 1
      then show ?thesis
        using row(1,2) [OF ij(1)] ij(2) ij'(2) by (simp add: nth_eq_iff_index_eq)
    next
      case 2
      have "i < length (map (\<lambda>row. row ! j) b)" "i' < length (map (\<lambda>row. row ! j) b)"
        using len ij(1) ij'(1) by simp_all
      then have "map (\<lambda>row. row ! j) b ! i \<noteq> map (\<lambda>row. row ! j) b ! i'"
        using col [OF ij(2)] 2(2) nth_eq_iff_index_eq by blast
      then show ?thesis using len ij(1) ij'(1) 2(1) by simp
    qed
    then show ?thesis using L by simp
  qed
  show ?thesis unfolding good_board_def using vals diff by blast
qed

subsection \<open>The loops of generate\<close>

lemma grow_mset:
  "grow r n cell u c k = (u', c', k') \<Longrightarrow> mset u' + mset c' = mset u + mset c"
proof (induction n arbitrary: cell u c k)
  case 0
  then show ?case by simp
next
  case (Suc n)
  let ?adjs = "filter (adjacent cell) u"
  show ?case
  proof (cases "?adjs = []")
    case True
    with Suc.prems show ?thesis by simp
  next
    case False
    let ?c = "?adjs ! (r k mod length ?adjs)"
    have "r k mod length ?adjs < length ?adjs" using False by simp
    then have "?c \<in> set ?adjs" by (rule nth_mem)
    then have mem: "?c \<in> set u" by simp
    from Suc.prems False have "grow r n ?c (remove1 ?c u) (c @ [?c]) (Suc k) = (u', c', k')"
      by (simp add: Let_def)
    from Suc.IH [OF this] have "mset u' + mset c' = mset (remove1 ?c u) + mset (c @ [?c])" .
    also have "\<dots> = mset u + mset c" using mem by simp
    finally show ?thesis .
  qed
qed

lemma grow_nonempty:
  "grow r n cell u c k = (u', c', k') \<Longrightarrow> c \<noteq> [] \<Longrightarrow> c' \<noteq> []"
proof (induction n arbitrary: cell u c k)
  case 0
  then show ?case by simp
next
  case (Suc n)
  let ?adjs = "filter (adjacent cell) u"
  show ?case
  proof (cases "?adjs = []")
    case True
    with Suc.prems show ?thesis by simp
  next
    case False
    let ?c = "?adjs ! (r k mod length ?adjs)"
    from Suc.prems False have "grow r n ?c (remove1 ?c u) (c @ [?c]) (Suc k) = (u', c', k')"
      by (simp add: Let_def)
    from Suc.IH [OF this] show ?thesis by simp
  qed
qed

lemma those_map_Some:
  "\<forall>c \<in> set cs. \<exists>v. board c = Some v \<and> P v \<Longrightarrow>
     \<exists>vals. those (map board cs) = Some vals \<and> map board cs = map Some vals \<and> (\<forall>v \<in> set vals. P v)"
proof (induction cs)
  case Nil
  then show ?case by simp
next
  case (Cons c cs)
  then obtain v where v: "board c = Some v" "P v" by auto
  from Cons obtain vals where "those (map board cs) = Some vals" "map board cs = map Some vals"
    "\<forall>v \<in> set vals. P v" by auto
  then have "those (map board (c # cs)) = Some (v # vals) \<and>
      map board (c # cs) = map Some (v # vals) \<and> (\<forall>v \<in> set (v # vals). P v)"
    using v by simp
  then show ?case by blast
qed

lemma reduce_from_int:
  assumes "\<And>a b. g (rat_of_int a) (rat_of_int b) = Inr (rat_of_int (h a b))"
  shows "reduce_from (Some g) (rat_of_int a) (map rat_of_int vs)
       = Inr (rat_of_int (fold (\<lambda>v acc. h acc v) vs a))"
  by (induction vs arbitrary: a) (simp_all add: assms)

lemma reduce_from_add:
  "reduce_from (operation ''+'') (rat_of_int a) (map rat_of_int vs) = Inr (rat_of_int (fold (\<lambda>v acc. acc + v) vs a))"
  unfolding operation_def by (simp add: reduce_from_int [where h = "(+)"])

lemma reduce_from_sub:
  "reduce_from (operation ''-'') (rat_of_int a) (map rat_of_int vs) = Inr (rat_of_int (fold (\<lambda>v acc. acc - v) vs a))"
  unfolding operation_def by (simp add: reduce_from_int [where h = "(-)"])

lemma reduce_from_mul:
  "reduce_from (operation ''*'') (rat_of_int a) (map rat_of_int vs) = Inr (rat_of_int (fold (\<lambda>v acc. acc * v) vs a))"
  unfolding operation_def by (simp add: reduce_from_int [where h = "(*)"])

lemma reduce_from_div:
  "\<forall>v \<in> set vs. v \<noteq> 0 \<Longrightarrow> \<exists>t. reduce_from (operation ''/'') a (map rat_of_int vs) = Inr t"
  by (induction vs arbitrary: a) (simp_all add: operation_def)

lemma reduce_total:
  assumes "operator \<in> {''+'', ''-'', ''*'', ''/''}" and "p \<noteq> []" and "\<forall>v \<in> set p. v \<noteq> 0"
  shows "\<exists>t. reduce (operation operator) (map rat_of_int p) = Inr t"
proof -
  from assms(2) obtain a vs where p: "p = a # vs" by (cases p) auto
  consider "operator = ''+''" | "operator = ''-''" | "operator = ''*''" | "operator = ''/''"
    using assms(1) by blast
  then show ?thesis
  proof cases
    case 1 then show ?thesis unfolding p by (simp add: reduce_from_add)
  next
    case 2 then show ?thesis unfolding p by (simp add: reduce_from_sub)
  next
    case 3 then show ?thesis unfolding p by (simp add: reduce_from_mul)
  next
    case 4 then show ?thesis unfolding p using reduce_from_div [of vs] assms(3) p by simp
  qed
qed

lemma py_int_of_int: "py_int (rat_of_int z) = z"
  by (simp add: py_int_def)

lemma py_int_of_int_diff: "py_int (rat_of_int a - rat_of_int b) = a - b"
  using py_int_of_int [of "a - b"] by simp


lemma label_result:
  assumes gb: "good_board sz board" and sub: "set clique \<subseteq> grid sz" and ne: "clique \<noteq> []"
  shows "\<exists>operator t k' vals. label r board clique k = Inr ((clique, operator, t), k') \<and>
      map board clique = map Some vals \<and> (\<forall>v \<in> set vals. 1 \<le> v \<and> v \<le> sz) \<and>
      reduce (operation operator) (map rat_of_int vals) = Inr t \<and>
      ((length clique = 1 \<and> operator = ''.'') \<or>
       (2 \<le> length clique \<and> operator \<in> {''+'', ''-'', ''*'', ''/''})) \<and>
      (length clique = 2 \<longrightarrow>
         (if vals ! 1 dvd vals ! 0
          then operator = ''/'' \<and> t = rat_of_int (vals ! 0) / rat_of_int (vals ! 1)
          else operator = ''-'' \<and> t = rat_of_int (vals ! 0 - vals ! 1)))"
proof -
  have "\<forall>c \<in> set clique. \<exists>v. board c = Some v \<and> (1 \<le> v \<and> v \<le> sz)"
    using gb sub unfolding good_board_def by blast
  from those_map_Some [OF this] obtain vals where
    th: "those (map board clique) = Some vals" and mp: "map board clique = map Some vals"
    and rng: "\<forall>v \<in> set vals. 1 \<le> v \<and> v \<le> sz" by blast
  have len: "length vals = length clique" using mp by (metis length_map)
  have "0 < length clique" using ne by simp
  then have "length clique = 1 \<or> length clique = 2 \<or> 3 \<le> length clique" by arith
  then consider "length clique = 1" | "length clique = 2" | "3 \<le> length clique"
    by blast
  note cases3 = this
  have fin: ?thesis
    if f1: "label r board clique k = Inr ((clique, operator, t), k')"
      and f2: "reduce (operation operator) (map rat_of_int vals) = Inr t"
      and f3: "(length clique = 1 \<and> operator = ''.'') \<or>
       (2 \<le> length clique \<and> operator \<in> {''+'', ''-'', ''*'', ''/''})"
      and f4: "length clique = 2 \<longrightarrow>
         (if vals ! 1 dvd vals ! 0
          then operator = ''/'' \<and> t = rat_of_int (vals ! 0) / rat_of_int (vals ! 1)
          else operator = ''-'' \<and> t = rat_of_int (vals ! 0 - vals ! 1))"
    for operator t k'
    apply (rule exI [of _ operator], rule exI [of _ t], rule exI [of _ k'], rule exI [of _ vals])
    using f1 f2 f3 f4 mp rng by (intro conjI)
  from cases3 show ?thesis
  proof cases
    case 1
    then obtain c where c: "clique = [c]" by (cases clique) auto
    with len obtain v where v: "vals = [v]" by (cases vals) auto
    have b: "board c = Some v" using mp c v by simp
    have "label r board clique k = Inr ((clique, ''.'', rat_of_int v), k)"
      using c b by (simp add: label_def)
    moreover have "reduce (operation ''.'') (map rat_of_int vals) = Inr (rat_of_int v)"
      using v by simp
    ultimately show ?thesis using 1 by (intro fin) simp_all
  next
    case 2
    then obtain c1 c2 where c: "clique = [c1, c2]"
      by (cases clique; cases "tl clique") auto
    with len obtain v1 v2 where v: "vals = [v1, v2]"
      by (cases vals; cases "tl vals") auto
    have b: "board c1 = Some v1" "board c2 = Some v2" using mp c v by simp_all
    have pos: "1 \<le> v1" "1 \<le> v2" using rng v by simp_all
    then have q: "rat_of_int v1 / rat_of_int v2 > 0" by simp
    have nz: "v2 \<noteq> 0" "rat_of_int v2 \<noteq> 0" using pos by simp_all
    show ?thesis
    proof (cases "v2 dvd v1")
      case True
      then have "v1 mod v2 = 0" by simp
      then have po: "pick_operator r board clique k = Inr (''/'', k)"
        using c b nz q by (simp add: pick_operator_def)
      have rd: "reduce (operation ''/'') (map rat_of_int vals) = Inr (rat_of_int v1 / rat_of_int v2)"
        using v nz by (simp add: operation_def)
      have "rat_of_int v1 / rat_of_int v2 = rat_of_int (v1 div v2)"
        using True by (simp add: of_int_div)
      then have "rat_of_int (py_int (rat_of_int v1 / rat_of_int v2)) = rat_of_int v1 / rat_of_int v2"
        by (simp add: py_int_of_int)
      then have "label r board clique k = Inr ((clique, ''/'', rat_of_int v1 / rat_of_int v2), k)"
        using 2 po th rd by (simp add: label_def)
      then show ?thesis using 2 rd True v by (intro fin) simp_all
    next
      case False
      then have "v1 mod v2 \<noteq> 0" by (simp add: dvd_eq_mod_eq_0)
      then have po: "pick_operator r board clique k = Inr (''-'', k)"
        using c b nz by (simp add: pick_operator_def)
      have rd: "reduce (operation ''-'') (map rat_of_int vals) = Inr (rat_of_int (v1 - v2))"
        using v by (simp add: operation_def)
      have "label r board clique k = Inr ((clique, ''-'', rat_of_int (v1 - v2)), k)"
        using 2 po th rd by (simp add: label_def py_int_of_int_diff)
      then show ?thesis using 2 rd False v by (intro fin) simp_all
    qed
  next
    case 3
    let ?op = "[''+*'' ! (r k mod 2)]"
    have po: "pick_operator r board clique k = Inr (?op, Suc k)"
      using 3 by (simp add: pick_operator_def)
    have "r k mod 2 = 0 \<or> r k mod 2 = 1" by auto
    then have op: "?op = ''+'' \<or> ?op = ''*''" by auto
    from 3 len obtain a vs where v: "vals = a # vs" by (cases vals) auto
    from op obtain z where rd: "reduce (operation ?op) (map rat_of_int vals) = Inr (rat_of_int z)"
      unfolding v using reduce_from_add [of a vs] reduce_from_mul [of a vs] by auto
    have lab: "label r board clique k = Inr ((clique, ?op, rat_of_int z), Suc k)"
      using 3 po th rd by (simp add: label_def py_int_of_int)
    have m: "?op \<in> {''+'', ''-'', ''*'', ''/''}" using op by auto
    have f3: "(length clique = 1 \<and> ?op = ''.'') \<or>
       (2 \<le> length clique \<and> ?op \<in> {''+'', ''-'', ''*'', ''/''})"
      using 3 m by simp
    have f4: "length clique = 2 \<longrightarrow>
         (if vals ! 1 dvd vals ! 0
          then ?op = ''/'' \<and> rat_of_int z = rat_of_int (vals ! 0) / rat_of_int (vals ! 1)
          else ?op = ''-'' \<and> rat_of_int z = rat_of_int (vals ! 0 - vals ! 1))"
      using 3 by simp
    show ?thesis by (rule fin [OF lab rd f3 f4])
  qed
qed


text \<open>
  \<open>made r board sz cage\<close>: the cage is what \<open>label\<close> returns for its own members, a
  non-empty list of cells of the grid.
\<close>

definition made :: "tape \<Rightarrow> (cell \<rightharpoonup> int) \<Rightarrow> int \<Rightarrow> clique \<Rightarrow> bool" where
  "made r board sz cage =
     (fst cage \<noteq> [] \<and> set (fst cage) \<subseteq> grid sz \<and>
      (\<exists>k k'. label r board (fst cage) k = Inr (cage, k')))"

lemma carve_result:
  "good_board sz board \<Longrightarrow> set uncaged \<subseteq> grid sz \<Longrightarrow>
     \<exists>cl' k'. carve r board uncaged cliques k = Inr (cl', k') \<and>
       mset (concat (map fst cl')) = mset uncaged + mset (concat (map fst cliques)) \<and>
       (\<forall>cg \<in> set cl'. cg \<in> set cliques \<or> made r board sz cg)"
proof (induction r board uncaged cliques k rule: carve.induct)
  case (1 r board cliques k)
  then show ?case by simp
next
  case (2 r board cell rest cliques k)
  let ?g = "grow r (1 + r k mod 4 - 1) cell (remove1 cell (cell # rest)) [cell] (Suc k)"
  obtain u' clique k1 where g: "(u', (clique, k1)) = ?g"
    by (metis prod.collapse)
  have g': "grow r (r k mod 4) cell rest [cell] (Suc k) = (u', clique, k1)"
    using g by simp
  have ms: "mset u' + mset clique = mset rest + mset [cell]" using grow_mset [OF g'] .
  have ne: "clique \<noteq> []" using grow_nonempty [OF g'] by simp
  have "set_mset (mset u' + mset clique) = set_mset (mset rest + mset [cell])"
    using ms by simp
  then have sets: "set u' \<union> set clique = set (cell # rest)" by auto
  then have su: "set u' \<subseteq> grid sz" and sc: "set clique \<subseteq> grid sz"
    using "2.prems"(2) by auto
  from label_result [OF "2.prems"(1) sc ne, of r k1] obtain operator t k2 where
    lab: "label r board clique k1 = Inr ((clique, operator, t), k2)" by blast
  let ?cage = "(clique, operator, t)"
  from "2.IH" [OF refl g refl lab refl "2.prems"(1) su] obtain cl' k' where
    r: "carve r board u' (cliques @ [?cage]) k2 = Inr (cl', k')"
    and m: "mset (concat (map fst cl')) = mset u' + mset (concat (map fst (cliques @ [?cage])))"
    and a: "\<forall>cg \<in> set cl'. cg \<in> set (cliques @ [?cage]) \<or> made r board sz cg"
    by blast
  have c: "carve r board (cell # rest) cliques k = Inr (cl', k')"
    using g' lab r by simp
  have "mset (concat (map fst cl')) = (mset u' + mset clique) + mset (concat (map fst cliques))"
    using m by simp
  then have m': "mset (concat (map fst cl')) = mset (cell # rest) + mset (concat (map fst cliques))"
    unfolding ms by simp
  have "made r board sz ?cage" unfolding made_def using ne sc lab by auto
  then have a': "\<forall>cg \<in> set cl'. cg \<in> set cliques \<or> made r board sz cg"
    using a by auto
  show ?case using c m' a' by blast
qed

subsection \<open>The cliques of generate\<close>

text \<open>
  The dictionary \<open>board\<close> that \<open>generate\<close> builds on line 99 and reads the values of
  the cells from; \<open>generate\<close> does not return it.
\<close>

definition generate_board :: "tape \<Rightarrow> int \<Rightarrow> (cell \<rightharpoonup> int)" where
  "generate_board r sz = map_of (board_items sz (fst (board_rows r sz)))"

lemma good_generate_board: "good_board sz (generate_board r sz)"
  unfolding generate_board_def by (rule good_board_latin) (rule latin_board_rows)

lemma generate_result:
  "\<exists>cliques. generate r sz = Inr (sz, cliques) \<and>
     distinct (concat (map fst cliques)) \<and>
     set (concat (map fst cliques)) = grid sz \<and>
     (\<forall>cg \<in> set cliques. made r (generate_board r sz) sz cg)"
proof -
  let ?items = "board_items sz (fst (board_rows r sz))"
  let ?uncaged = "sort_key snd (map fst ?items)"
  have u: "mset ?uncaged = mset (map fst ?items)" by simp
  have su: "set ?uncaged = grid sz"
    using set_board_keys [of sz "fst (board_rows r sz)"] by simp
  have du: "distinct ?uncaged"
    using distinct_board_keys [of sz "fst (board_rows r sz)"] by simp
  from carve_result [where sz = sz and board = "generate_board r sz" and uncaged = ?uncaged
      and r = r and cliques = "[]" and k = "snd (board_rows r sz)", OF good_generate_board] su
  obtain cl k' where
    c: "carve r (generate_board r sz) ?uncaged [] (snd (board_rows r sz)) = Inr (cl, k')"
    and m: "mset (concat (map fst cl)) = mset ?uncaged + mset (concat (map fst ([] :: clique list)))"
    and a: "\<forall>cg \<in> set cl. cg \<in> set ([] :: clique list) \<or> made r (generate_board r sz) sz cg"
    by auto
  have g: "generate r sz = Inr (sz, cl)"
    using c by (simp add: generate_def generate_board_def split_beta Let_def)
  have m': "mset (concat (map fst cl)) = mset ?uncaged" using m by simp
  have "distinct (concat (map fst cl))" using m' du mset_eq_imp_distinct_iff by blast
  moreover have "set (concat (map fst cl)) = grid sz" using m' su mset_eq_setD by blast
  ultimately show ?thesis using g a by auto
qed

lemma distinct_concat_index:
  "distinct (concat xss) \<Longrightarrow> i < length xss \<Longrightarrow> j < length xss \<Longrightarrow>
     x \<in> set (xss ! i) \<Longrightarrow> x \<in> set (xss ! j) \<Longrightarrow> i = j"
proof (induction xss arbitrary: i j)
  case Nil
  then show ?case by simp
next
  case (Cons xs xss)
  have d: "distinct (concat xss)" and dj: "set xs \<inter> set (concat xss) = {}"
    using Cons.prems(1) by auto
  show ?case
  proof (cases i)
    case i0: 0
    show ?thesis
    proof (cases j)
      case 0
      with i0 show ?thesis by simp
    next
      case (Suc j')
      then have "x \<in> set (concat xss)" using Cons.prems(3,5) by auto
      moreover have "x \<in> set xs" using Cons.prems(4) i0 by simp
      ultimately show ?thesis using dj by blast
    qed
  next
    case (Suc i')
    show ?thesis
    proof (cases j)
      case 0
      have "x \<in> set (concat xss)" using Cons.prems(2,4) Suc by auto
      moreover have "x \<in> set xs" using Cons.prems(5) 0 by simp
      ultimately show ?thesis using dj by blast
    next
      case j: (Suc j')
      have "i' = j'" using Cons.IH [OF d, of i' j'] Cons.prems(2-5) Suc j by simp
      then show ?thesis using Suc j by simp
    qed
  qed
qed

text \<open>
  C4. For every size and every tape of random draws, \<open>generate\<close> returns, with the size,
  a list of cliques whose member lists, put end to end, have no cell twice and hold
  exactly the cells \<open>(x, y)\<close> with \<open>1 \<le> x, y \<le> size\<close>: no clique has a cell twice, and every
  cell of the grid is a member of exactly one clique of the list.
\<close>

theorem generate_partition:
  "\<exists>cliques. generate r sz = Inr (sz, cliques) \<and>
     distinct (concat (map fst cliques)) \<and>
     set (concat (map fst cliques)) = {1..sz} \<times> {1..sz} \<and>
     (\<forall>x y. 1 \<le> x \<and> x \<le> sz \<and> 1 \<le> y \<and> y \<le> sz \<longrightarrow>
        (\<exists>!i. i < length cliques \<and> (x, y) \<in> set (fst (cliques ! i))))"
proof -
  from generate_result [of r sz] obtain cl where
    g: "generate r sz = Inr (sz, cl)" and d: "distinct (concat (map fst cl))"
    and s: "set (concat (map fst cl)) = grid sz" by blast
  have one: "\<exists>!i. i < length cl \<and> (x, y) \<in> set (fst (cl ! i))"
    if "1 \<le> x \<and> x \<le> sz \<and> 1 \<le> y \<and> y \<le> sz" for x y
  proof -
    have "(x, y) \<in> set (concat (map fst cl))" using that s by (simp add: grid_def)
    then obtain cg where "cg \<in> set cl" "(x, y) \<in> set (fst cg)" by auto
    then obtain i where i: "i < length cl" "(x, y) \<in> set (fst (cl ! i))"
      by (metis in_set_conv_nth)
    have "j = i" if "j < length cl \<and> (x, y) \<in> set (fst (cl ! j))" for j
      using distinct_concat_index [OF d, of j i "(x, y)"] i that by simp
    with i show ?thesis by blast
  qed
  show ?thesis
  proof (rule exI [of _ cl], intro conjI allI impI)
    show "generate r sz = Inr (sz, cl)" by (rule g)
    show "distinct (concat (map fst cl))" by (rule d)
    show "set (concat (map fst cl)) = {1..sz} \<times> {1..sz}" using s by (simp add: grid_def)
  next
    fix x y assume "1 \<le> x \<and> x \<le> sz \<and> 1 \<le> y \<and> y \<le> sz"
    then show "\<exists>!i. i < length cl \<and> (x, y) \<in> set (fst (cl ! i))" by (rule one)
  qed
qed


theorem generate_partition_witness:
  "generate (\<lambda>k. 0) 2
     = Inr (2, [([(1, 1)], ''.'', 1), ([(2, 1)], ''.'', 2), ([(1, 2)], ''.'', 2), ([(2, 2)], ''.'', 1)]) \<and>
   (\<exists>cliques. generate (\<lambda>k. 0) 2 = Inr (2, cliques) \<and>
      distinct (concat (map fst cliques)) \<and>
      set (concat (map fst cliques)) = {1..2} \<times> {1..2} \<and>
      (\<exists>!i. i < length cliques \<and> (2, 1) \<in> set (fst (cliques ! i))))"
proof -
  have e: "generate (\<lambda>k. 0) 2
     = Inr (2, [([(1, 1)], ''.'', 1), ([(2, 1)], ''.'', 2), ([(1, 2)], ''.'', 2), ([(2, 2)], ''.'', 1)])"
    by code_simp
  from generate_partition [of "\<lambda>k. 0" 2] obtain cl where
    g: "generate (\<lambda>k. 0) 2 = Inr (2, cl)" and d: "distinct (concat (map fst cl))"
    and s: "set (concat (map fst cl)) = {1..2} \<times> {1..2}"
    and u: "\<forall>x y. 1 \<le> x \<and> x \<le> 2 \<and> 1 \<le> y \<and> y \<le> 2 \<longrightarrow>
        (\<exists>!i. i < length cl \<and> (x, y) \<in> set (fst (cl ! i)))"
    by blast
  have "\<exists>!i. i < length cl \<and> (2, 1) \<in> set (fst (cl ! i))"
    using u [rule_format, of 2 1] by simp
  with e g d s show ?thesis by blast
qed

lemma made_props:
  assumes gb: "good_board sz board" and md: "made r board sz (m, operator, t)"
  shows "m \<noteq> [] \<and> set m \<subseteq> grid sz \<and>
     (\<exists>vals. map board m = map Some vals \<and> (\<forall>v \<in> set vals. 1 \<le> v \<and> v \<le> sz) \<and>
        reduce (operation operator) (map rat_of_int vals) = Inr t \<and>
        ((length m = 1 \<and> operator = ''.'') \<or>
         (2 \<le> length m \<and> operator \<in> {''+'', ''-'', ''*'', ''/''})) \<and>
        (length m = 2 \<longrightarrow>
           (if vals ! 1 dvd vals ! 0
            then operator = ''/'' \<and> t = rat_of_int (vals ! 0) / rat_of_int (vals ! 1)
            else operator = ''-'' \<and> t = rat_of_int (vals ! 0 - vals ! 1))))"
proof -
  from md obtain k k' where ne: "m \<noteq> []" and sub: "set m \<subseteq> grid sz"
    and lab: "label r board m k = Inr ((m, operator, t), k')"
    unfolding made_def by auto
  from label_result [OF gb sub ne, of r k] obtain operator' t' k'' vals where
    l': "label r board m k = Inr ((m, operator', t'), k'')"
    and rest: "map board m = map Some vals" "\<forall>v \<in> set vals. 1 \<le> v \<and> v \<le> sz"
      "reduce (operation operator') (map rat_of_int vals) = Inr t'"
      "(length m = 1 \<and> operator' = ''.'') \<or>
         (2 \<le> length m \<and> operator' \<in> {''+'', ''-'', ''*'', ''/''})"
      "length m = 2 \<longrightarrow>
           (if vals ! 1 dvd vals ! 0
            then operator' = ''/'' \<and> t' = rat_of_int (vals ! 0) / rat_of_int (vals ! 1)
            else operator' = ''-'' \<and> t' = rat_of_int (vals ! 0 - vals ! 1))"
    by blast
  from lab l' have "operator' = operator" "t' = t" by simp_all
  with rest ne sub show ?thesis by blast
qed

text \<open>
  C6. Whenever a clique returned by \<open>generate\<close> has exactly two members, with the values
  \<open>vf\<close> and \<open>vs\<close> of the board at the first and the second member: if \<open>vs\<close> divides \<open>vf\<close>
  the operator is \<open>/\<close> and the target is the quotient \<open>vf / vs\<close>; otherwise, also when
  \<open>vf\<close> divides \<open>vs\<close>, the operator is \<open>-\<close> and the target is \<open>vf - vs\<close>.
\<close>

theorem generate_two_cells:
  assumes "generate r sz = Inr (sz', cliques)"
    and "(members, operator, target) \<in> set cliques" and "length members = 2"
  shows "\<exists>vf vs. generate_board r sz (members ! 0) = Some vf \<and>
     generate_board r sz (members ! 1) = Some vs \<and>
     (if vs dvd vf then operator = ''/'' \<and> target = rat_of_int vf / rat_of_int vs
      else operator = ''-'' \<and> target = rat_of_int (vf - vs))"
proof -
  from generate_result [of r sz] assms(1) have
    "\<forall>cg \<in> set cliques. made r (generate_board r sz) sz cg" by auto
  then have "made r (generate_board r sz) sz (members, operator, target)"
    using assms(2) by blast
  from made_props [OF good_generate_board this] assms(3) obtain vals where
    mp: "map (generate_board r sz) members = map Some vals"
    and cl: "if vals ! 1 dvd vals ! 0
            then operator = ''/'' \<and> target = rat_of_int (vals ! 0) / rat_of_int (vals ! 1)
            else operator = ''-'' \<and> target = rat_of_int (vals ! 0 - vals ! 1)"
    by blast
  have len: "length vals = 2" using mp assms(3) by (metis length_map)
  have "map (generate_board r sz) members ! 0 = map Some vals ! 0"
    "map (generate_board r sz) members ! 1 = map Some vals ! 1" using mp by simp_all
  then have "generate_board r sz (members ! 0) = Some (vals ! 0)"
    "generate_board r sz (members ! 1) = Some (vals ! 1)"
    using assms(3) len by simp_all
  with cl show ?thesis by blast
qed

theorem generate_two_cells_witness:
  "generate (\<lambda>k. 1) 2 = Inr (2, [([(1, 1), (1, 2)], ''-'', - 1), ([(2, 1), (2, 2)], ''/'', 2)]) \<and>
   generate_board (\<lambda>k. 1) 2 (1, 1) = Some 1 \<and> generate_board (\<lambda>k. 1) 2 (1, 2) = Some 2 \<and>
   generate_board (\<lambda>k. 1) 2 (2, 1) = Some 2 \<and> generate_board (\<lambda>k. 1) 2 (2, 2) = Some 1 \<and>
   (\<exists>vf vs. generate_board (\<lambda>k. 1) 2 ([(2, 1), (2, 2)] ! 0) = Some vf \<and>
      generate_board (\<lambda>k. 1) 2 ([(2, 1), (2, 2)] ! 1) = Some vs \<and>
      (if vs dvd vf then ''/'' = ''/'' \<and> (2 :: rat) = rat_of_int vf / rat_of_int vs
       else ''/'' = ''-'' \<and> (2 :: rat) = rat_of_int (vf - vs)))"
proof -
  have e: "generate (\<lambda>k. 1) 2
      = Inr (2, [([(1, 1), (1, 2)], ''-'', - 1), ([(2, 1), (2, 2)], ''/'', 2)])"
    by code_simp
  have b: "generate_board (\<lambda>k. 1) 2 (1, 1) = Some 1" "generate_board (\<lambda>k. 1) 2 (1, 2) = Some 2"
    "generate_board (\<lambda>k. 1) 2 (2, 1) = Some 2" "generate_board (\<lambda>k. 1) 2 (2, 2) = Some 1"
    by code_simp+
  have m: "([(2, 1), (2, 2)], ''/'', 2) \<in> set [([(1, 1), (1, 2)], ''-'', - 1), ([(2, 1), (2, 2)], ''/'', 2 :: rat)]"
    by simp
  have l: "length [(2, 1), (2, 2) :: cell] = 2" by simp
  from generate_two_cells [OF e m l] e b show ?thesis by blast
qed

subsection \<open>The domains of the cliques of generate\<close>

lemma qualifies_total:
  assumes op: "(length m = 1 \<and> operator = ''.'') \<or>
               (2 \<le> length m \<and> operator \<in> {''+'', ''-'', ''*'', ''/''})"
    and len: "length v = length m" and nz: "\<forall>x \<in> set v. x \<noteq> 0"
  shows "qualifies m operator t v =
     Inr (conflicting m v m v = Inr False \<and>
          (\<exists>p \<in> set (permutations v). reduce (operation operator) (map rat_of_int p) = Inr t))"
proof -
  obtain c where c: "conflicting m v m v = Inr c"
    using conflicting_eq [OF len len] by blast
  have tot: "\<forall>p \<in> set (permutations v). \<exists>x. reduce (operation operator) (map rat_of_int p) = Inr x"
  proof
    fix p assume "p \<in> set (permutations v)"
    then have mp: "mset p = mset v" by (simp add: set_permutations)
    then have lp: "length p = length m" using len by (metis mset_eq_length)
    have sp: "set p = set v" using mp by (rule mset_eq_setD)
    from op show "\<exists>x. reduce (operation operator) (map rat_of_int p) = Inr x"
    proof
      assume "length m = 1 \<and> operator = ''.''"
      with lp obtain x where "p = [x]" by (cases p) auto
      then show ?thesis by simp
    next
      assume a: "2 \<le> length m \<and> operator \<in> {''+'', ''-'', ''*'', ''/''}"
      then have "p \<noteq> []" using lp by auto
      moreover have "\<forall>x \<in> set p. x \<noteq> 0" using nz sp by simp
      ultimately show ?thesis using a reduce_total by blast
    qed
  qed
  have "satisfies v (operation operator) t =
      Inr (\<exists>p \<in> set (permutations v). reduce (operation operator) (map rat_of_int p) = Inr t)"
    unfolding satisfies_def using tot by (rule satisfies_loop_total)
  then show ?thesis using c by (cases c) (simp_all add: qualifies_def)
qed

lemma gdomains_loop_total:
  "\<forall>cg \<in> set cl. \<exists>d. filter_raising (qualifies (fst cg) (fst (snd cg)) (snd (snd cg)))
       (product_range sz (length (fst cg))) = Inr d \<Longrightarrow>
     \<exists>D'. gdomains_loop sz D cl = Inr D'"
proof (induction cl arbitrary: D)
  case Nil
  then show ?case by simp
next
  case (Cons cg cl)
  obtain m operator t where cg: "cg = (m, operator, t)" by (cases cg)
  from Cons.prems cg obtain d where
    d: "filter_raising (qualifies m operator t) (product_range sz (length m)) = Inr d" by auto
  have "\<forall>cg \<in> set cl. \<exists>d. filter_raising (qualifies (fst cg) (fst (snd cg)) (snd (snd cg)))
       (product_range sz (length (fst cg))) = Inr d" using Cons.prems by simp
  from Cons.IH [OF this, of "D(m \<mapsto> d)"] obtain D' where
    "gdomains_loop sz (D(m \<mapsto> d)) cl = Inr D'" by blast
  then show ?case using cg d by simp
qed

lemma distinct_keys:
  assumes "distinct (concat (map fst cl))" and "\<forall>cg \<in> set cl. fst cg \<noteq> []"
  shows "distinct (map fst cl)"
proof -
  have "[] \<notin> set (map fst cl)" using assms(2) by auto
  then have "removeAll [] (map fst cl) = map fst cl" by (rule removeAll_id)
  moreover have "distinct (removeAll [] (map fst cl))"
    using assms(1) unfolding distinct_concat_iff by blast
  ultimately show ?thesis by simp
qed

lemma split_distinct_key:
  assumes "distinct (map fst cl)" and "(m, x) \<in> set cl"
  obtains pre post where "cl = pre @ (m, x) # post" and "m \<notin> fst ` set post"
proof -
  from split_list [OF assms(2)] obtain pre post where cl: "cl = pre @ (m, x) # post" by blast
  have "m \<notin> fst ` set post" using assms(1) unfolding cl by auto
  with cl show ?thesis by (rule that)
qed

text \<open>
  C5. For every size and every tape of random draws, \<open>generate\<close> returns a list of
  cliques on which \<open>gdomains\<close> returns, and for every clique of the list the values that
  the board of \<open>generate\<close> has at its members form a tuple of its domain: the tuple does
  not conflict with itself, \<open>satisfies\<close> accepts it for the operator and target of the
  clique, and so the domain is not empty.
\<close>

theorem generate_domains_nonempty:
  "\<exists>cliques domains. generate r sz = Inr (sz, cliques) \<and> gdomains sz cliques = Inr domains \<and>
     (\<forall>cg \<in> set cliques. \<exists>vals tuples.
        map (generate_board r sz) (fst cg) = map Some vals \<and>
        conflicting (fst cg) vals (fst cg) vals = Inr False \<and>
        satisfies vals (operation (fst (snd cg))) (snd (snd cg)) = Inr True \<and>
        domains (fst cg) = Some tuples \<and> vals \<in> set tuples \<and> tuples \<noteq> [])"
proof -
  let ?board = "generate_board r sz"
  note gb = good_generate_board [of sz r]
  from generate_result [of r sz] obtain cl where
    g: "generate r sz = Inr (sz, cl)" and d: "distinct (concat (map fst cl))"
    and md: "\<forall>cg \<in> set cl. made r ?board sz cg" by blast
  have props: "m \<noteq> [] \<and> set m \<subseteq> grid sz \<and>
     (\<exists>vals. map ?board m = map Some vals \<and> (\<forall>v \<in> set vals. 1 \<le> v \<and> v \<le> sz) \<and>
        reduce (operation operator) (map rat_of_int vals) = Inr t \<and>
        ((length m = 1 \<and> operator = ''.'') \<or>
         (2 \<le> length m \<and> operator \<in> {''+'', ''-'', ''*'', ''/''})))"
    if "(m, operator, t) \<in> set cl" for m operator t
    using made_props [OF gb, of r m operator t] md that by blast
  have filt: "filter_raising (qualifies m operator t) (product_range sz (length m))
      = Inr (filter (\<lambda>v. qualifies m operator t v = Inr True) (product_range sz (length m)))"
    if "(m, operator, t) \<in> set cl" for m operator t
  proof (rule filter_raising_total, rule ballI)
    fix v assume "v \<in> set (product_range sz (length m))"
    then have "length v = length m" "\<forall>x \<in> set v. x \<noteq> 0"
      by (auto simp: set_product_range)
    then show "\<exists>b. qualifies m operator t v = Inr b"
      using qualifies_total props [OF that] by blast
  qed
  have "\<forall>cg \<in> set cl. \<exists>dd. filter_raising (qualifies (fst cg) (fst (snd cg)) (snd (snd cg)))
       (product_range sz (length (fst cg))) = Inr dd"
  proof
    fix cg assume "cg \<in> set cl"
    then have "(fst cg, fst (snd cg), snd (snd cg)) \<in> set cl" by simp
    from filt [OF this] show "\<exists>dd. filter_raising (qualifies (fst cg) (fst (snd cg)) (snd (snd cg)))
       (product_range sz (length (fst cg))) = Inr dd" by blast
  qed
  from gdomains_loop_total [OF this, of Map.empty] obtain domains where
    gd: "gdomains sz cl = Inr domains" unfolding gdomains_def by blast
  have keys: "distinct (map fst cl)"
  proof (rule distinct_keys [OF d], rule ballI)
    fix cg assume "cg \<in> set cl"
    then have "(fst cg, fst (snd cg), snd (snd cg)) \<in> set cl" by simp
    from props [OF this] show "fst cg \<noteq> []" by blast
  qed
  have each: "\<exists>vals tuples.
        map ?board (fst cg) = map Some vals \<and>
        conflicting (fst cg) vals (fst cg) vals = Inr False \<and>
        satisfies vals (operation (fst (snd cg))) (snd (snd cg)) = Inr True \<and>
        domains (fst cg) = Some tuples \<and> vals \<in> set tuples \<and> tuples \<noteq> []"
    if cgin: "cg \<in> set cl" for cg
  proof -
    obtain m operator t where cg: "cg = (m, operator, t)" by (cases cg)
    have min: "(m, operator, t) \<in> set cl" using cgin cg by simp
    from props [OF min] obtain vals where ne: "m \<noteq> []" and sub: "set m \<subseteq> grid sz"
      and mp: "map ?board m = map Some vals" and rng: "\<forall>v \<in> set vals. 1 \<le> v \<and> v \<le> sz"
      and rd: "reduce (operation operator) (map rat_of_int vals) = Inr t"
      and op: "(length m = 1 \<and> operator = ''.'') \<or>
         (2 \<le> length m \<and> operator \<in> {''+'', ''-'', ''*'', ''/''})"
      by blast
    have len: "length vals = length m" using mp by (metis length_map)
    have bv: "?board (m ! i) = Some (vals ! i)" if "i < length m" for i
    proof -
      have "map ?board m ! i = map Some vals ! i" using mp by simp
      then show ?thesis using that len by simp
    qed
    have nc: "conflicting m vals m vals = Inr False"
    proof -
      have "\<not> (\<exists>i < length m. \<exists>j < length m. RowXorCol (m ! i) (m ! j) \<and> vals ! i = vals ! j)"
      proof
        assume "\<exists>i < length m. \<exists>j < length m. RowXorCol (m ! i) (m ! j) \<and> vals ! i = vals ! j"
        then obtain i j where ij: "i < length m" "j < length m" "RowXorCol (m ! i) (m ! j)"
          "vals ! i = vals ! j" by blast
        have "m ! i \<in> grid sz" "m ! j \<in> grid sz" using sub ij(1,2) nth_mem by blast+
        then have "?board (m ! i) \<noteq> ?board (m ! j)"
          using gb ij(3) unfolding good_board_def by blast
        then show False using bv [OF ij(1)] bv [OF ij(2)] ij(4) by simp
      qed
      then show ?thesis using conflicting_eq [OF len len] by simp
    qed
    have nz: "\<forall>x \<in> set vals. x \<noteq> 0" using rng by auto
    have "vals \<in> set (permutations vals)" by (simp add: set_permutations)
    then have ex: "\<exists>p \<in> set (permutations vals). reduce (operation operator) (map rat_of_int p) = Inr t"
      using rd by blast
    have q: "qualifies m operator t vals = Inr True"
      using qualifies_total [OF op len nz, of t] nc ex by simp
    have sat: "satisfies vals (operation operator) t = Inr True"
      using q nc by (simp add: qualifies_def)
    from keys min obtain pre post where
      cl: "cl = pre @ (m, operator, t) # post" and last: "m \<notin> fst ` set post"
      by (rule split_distinct_key)
    have dm: "domains m = Some (filter (\<lambda>v. qualifies m operator t v = Inr True)
                              (product_range sz (length m)))"
      using gdomains_entry [OF gd [unfolded cl] last] .
    have inp: "vals \<in> set (product_range sz (length m))"
      using len rng by (simp add: set_product_range)
    let ?tuples = "filter (\<lambda>v. qualifies m operator t v = Inr True) (product_range sz (length m))"
    have vin: "vals \<in> set ?tuples" using inp q by simp
    have "?tuples \<noteq> []"
    proof
      assume "?tuples = []"
      then have "set ?tuples = {}" by (simp only: set_empty)
      with vin show False by (simp only: empty_iff)
    qed
    with mp nc sat dm vin show ?thesis unfolding cg by auto
  qed
  show ?thesis
  proof (rule exI [of _ cl], rule exI [of _ domains], intro conjI ballI)
    show "generate r sz = Inr (sz, cl)" by (rule g)
    show "gdomains sz cl = Inr domains" by (rule gd)
  next
    fix cg assume "cg \<in> set cl"
    then show "\<exists>vals tuples.
        map ?board (fst cg) = map Some vals \<and>
        conflicting (fst cg) vals (fst cg) vals = Inr False \<and>
        satisfies vals (operation (fst (snd cg))) (snd (snd cg)) = Inr True \<and>
        domains (fst cg) = Some tuples \<and> vals \<in> set tuples \<and> tuples \<noteq> []"
      by (rule each)
  qed
qed


theorem generate_domains_nonempty_witness:
  "generate (\<lambda>k. 1) 2 = Inr (2, [([(1, 1), (1, 2)], ''-'', - 1), ([(2, 1), (2, 2)], ''/'', 2)]) \<and>
   (\<exists>domains vals tuples.
      gdomains 2 [([(1, 1), (1, 2)], ''-'', - 1), ([(2, 1), (2, 2)], ''/'', 2)] = Inr domains \<and>
      map (generate_board (\<lambda>k. 1) 2) [(2, 1), (2, 2)] = map Some vals \<and>
      conflicting [(2, 1), (2, 2)] vals [(2, 1), (2, 2)] vals = Inr False \<and>
      satisfies vals (operation ''/'') 2 = Inr True \<and>
      domains [(2, 1), (2, 2)] = Some tuples \<and> vals \<in> set tuples \<and> tuples \<noteq> [])"
proof -
  let ?cl = "[([(1, 1), (1, 2)], ''-'', - 1), ([(2, 1), (2, 2)], ''/'', 2)] :: clique list"
  have e: "generate (\<lambda>k. 1) 2 = Inr (2, ?cl)"
    by code_simp
  from generate_domains_nonempty [of "\<lambda>k. 1" 2] obtain cl domains where
    g: "generate (\<lambda>k. 1) 2 = Inr (2, cl)" and gd: "gdomains 2 cl = Inr domains"
    and a: "\<forall>cg \<in> set cl. \<exists>vals tuples.
        map (generate_board (\<lambda>k. 1) 2) (fst cg) = map Some vals \<and>
        conflicting (fst cg) vals (fst cg) vals = Inr False \<and>
        satisfies vals (operation (fst (snd cg))) (snd (snd cg)) = Inr True \<and>
        domains (fst cg) = Some tuples \<and> vals \<in> set tuples \<and> tuples \<noteq> []"
    by blast
  have cl: "cl = ?cl" using e g by simp
  have "([(2, 1), (2, 2)], ''/'', 2) \<in> set cl" unfolding cl by simp
  from a [rule_format, OF this] have "\<exists>vals tuples.
      map (generate_board (\<lambda>k. 1) 2) [(2, 1), (2, 2)] = map Some vals \<and>
      conflicting [(2, 1), (2, 2)] vals [(2, 1), (2, 2)] vals = Inr False \<and>
      satisfies vals (operation ''/'') 2 = Inr True \<and>
      domains [(2, 1), (2, 2)] = Some tuples \<and> vals \<in> set tuples \<and> tuples \<noteq> []"
    by (simp only: fst_conv snd_conv)
  then obtain vals tuples where
    "map (generate_board (\<lambda>k. 1) 2) [(2, 1), (2, 2)] = map Some vals"
    "conflicting [(2, 1), (2, 2)] vals [(2, 1), (2, 2)] vals = Inr False"
    "satisfies vals (operation ''/'') 2 = Inr True"
    "domains [(2, 1), (2, 2)] = Some tuples" "vals \<in> set tuples" "tuples \<noteq> []"
    by blast
  with e gd [unfolded cl] show ?thesis by blast
qed

end
